theory Spec2Isabelle
  imports Complex_Main
begin

section \<open>SJF simulation of a single-server queue (lab3\_sjf.c)\<close>

text \<open>
  The program keeps two linked lists in malloc'ed memory (the event list, doubly linked,
  and the waiting queue, singly linked) and a handful of global variables. The model
  keeps the same shape: one heap per struct type (a map from addresses to records), the
  globals as fields of one state record, and every function of the source as a function
  from state to state.

  A function of the model gives \<open>Returns x\<close> when the C code returns \<open>x\<close>,
  \<open>Fault f\<close> when the C code has no defined behaviour (the fault \<open>f\<close> says why) and
  \<open>Diverges\<close> when a loop of the C code never ends.
\<close>

subsection \<open>Results, faults, machine integers\<close>

datatype fault =
    Null_pointer      \<comment> \<open>a \<open>NULL\<close> pointer is dereferenced\<close>
  | Wild_pointer      \<comment> \<open>a pointer to memory that is not allocated is dereferenced or freed\<close>
  | Uninitialised     \<comment> \<open>a field is read that was never written since \<open>malloc\<close>\<close>
  | Long_range        \<comment> \<open>a \<open>long int\<close> computation leaves the range of the type\<close>

datatype 'a res = Returns 'a | Fault fault | Diverges

definition and_then :: "'a res \<Rightarrow> ('a \<Rightarrow> 'b res) \<Rightarrow> 'b res" where
  "and_then m f = (case m of Returns x \<Rightarrow> f x | Fault e \<Rightarrow> Fault e | Diverges \<Rightarrow> Diverges)"

definition finished :: "'a res option \<Rightarrow> 'a res" where
  "finished r = (case r of None \<Rightarrow> Diverges | Some x \<Rightarrow> x)"

text \<open>\<open>long int\<close> is taken as the 64-bit type of the LP64 platforms the program
  includes \<open>values.h\<close> for. Signed overflow is undefined in C: it is a fault here.\<close>

definition LONG_MAX :: int where
  "LONG_MAX = 2 ^ 63 - 1"

definition LONG_MIN :: int where
  "LONG_MIN = - (2 ^ 63)"

definition to_long :: "int \<Rightarrow> int res" where
  "to_long v = (if LONG_MIN \<le> v \<and> v \<le> LONG_MAX then Returns v else Fault Long_range)"

subsection \<open>Floating-point numbers\<close>

text \<open>
  \<open>float\<close> and \<open>double\<close> are the binary32 and binary64 formats of IEEE 754. An
  operation is done in the type of its operands and rounds to the nearest number of
  the format, to the one with an even last digit when two are as near (the C
  implementation's \<open>FLT_EVAL_METHOD\<close> is 0, as on x86-64). A floating-point value is
  the real number it stands for, or \<open>Not_finite\<close>: an infinity or a NaN, which the
  program never tells apart (what it computes from one of them is one of them again,
  up to the conversion to \<open>long int\<close>).
\<close>

datatype fval = Finite real | Not_finite

text \<open>The exponent of \<open>x\<close>: \<open>2 ^ expo x \<le> |x| < 2 ^ (expo x + 1)\<close>.\<close>

definition expo :: "real \<Rightarrow> int" where
  "expo x = \<lfloor>log 2 \<bar>x\<bar>\<rfloor>"

text \<open>The integer nearest to \<open>x\<close>, the even one of two that are as near.\<close>

definition round_even :: "real \<Rightarrow> int" where
  "round_even x =
     (if x - of_int \<lfloor>x\<rfloor> < 1 / 2 then \<lfloor>x\<rfloor>
      else if 1 / 2 < x - of_int \<lfloor>x\<rfloor> then \<lfloor>x\<rfloor> + 1
      else if even \<lfloor>x\<rfloor> then \<lfloor>x\<rfloor> else \<lfloor>x\<rfloor> + 1)"

text \<open>
  A format has \<open>p\<close> binary digits and exponents from \<open>emin\<close> to \<open>emax\<close>. Around \<open>x\<close> its
  numbers are \<open>ulp p emin x\<close> apart (below \<open>2 ^ emin\<close>, where the subnormal numbers
  are, as far apart as just above it); \<open>nearest p emin x\<close> is the one \<open>x\<close> is rounded
  to, were there no greatest exponent; \<open>largest p emax\<close> is the greatest of them, and
  what is rounded beyond it becomes an infinity.
\<close>

definition ulp :: "nat \<Rightarrow> int \<Rightarrow> real \<Rightarrow> real" where
  "ulp p emin x = 2 powi (max (expo x) emin - (int p - 1))"

definition nearest :: "nat \<Rightarrow> int \<Rightarrow> real \<Rightarrow> real" where
  "nearest p emin x =
     (if x = 0 then 0 else of_int (round_even (x / ulp p emin x)) * ulp p emin x)"

definition largest :: "nat \<Rightarrow> int \<Rightarrow> real" where
  "largest p emax = (2 - 2 powi (1 - int p)) * 2 powi emax"

definition rounded :: "nat \<Rightarrow> int \<Rightarrow> int \<Rightarrow> real \<Rightarrow> fval" where
  "rounded p emin emax x =
     (if \<bar>nearest p emin x\<bar> \<le> largest p emax then Finite (nearest p emin x) else Not_finite)"

definition to_float :: "real \<Rightarrow> real" where
  "to_float x = nearest 24 (- 126) x"

definition to_double :: "real \<Rightarrow> real" where
  "to_double x = nearest 53 (- 1022) x"

definition float32 :: "real \<Rightarrow> fval" where
  "float32 x = rounded 24 (- 126) 127 x"

definition float64 :: "real \<Rightarrow> fval" where
  "float64 x = rounded 53 (- 1022) 1023 x"

text \<open>The finite numbers of the two formats.\<close>

definition is_float32 :: "real \<Rightarrow> bool" where
  "is_float32 x \<longleftrightarrow> float32 x = Finite x"

definition is_float64 :: "real \<Rightarrow> bool" where
  "is_float64 x \<longleftrightarrow> float64 x = Finite x"

text \<open>
  An \<open>int\<close> or a \<open>long int\<close> converted to \<open>float\<close>, and the sum of two floats. An
  integer of 64 bits is far below the largest float, and the sum of a finite float and
  of such an integer is rounded to a finite float again (lemma \<open>float32_add_finite\<close>):
  neither gives an infinity in the program.
\<close>

definition float_of_int :: "int \<Rightarrow> real" where
  "float_of_int n = to_float (of_int n)"

definition float32_add :: "real \<Rightarrow> real \<Rightarrow> real" where
  "float32_add x y = to_float (x + y)"

text \<open>The operations on doubles the program has.\<close>

definition float64_sub :: "fval \<Rightarrow> fval \<Rightarrow> fval" where
  "float64_sub a b =
     (case a of Not_finite \<Rightarrow> Not_finite
      | Finite x \<Rightarrow> (case b of Not_finite \<Rightarrow> Not_finite | Finite y \<Rightarrow> float64 (x - y)))"

definition float64_mul :: "fval \<Rightarrow> fval \<Rightarrow> fval" where
  "float64_mul a b =
     (case a of Not_finite \<Rightarrow> Not_finite
      | Finite x \<Rightarrow> (case b of Not_finite \<Rightarrow> Not_finite | Finite y \<Rightarrow> float64 (x * y)))"

definition float_neg :: "fval \<Rightarrow> fval" where
  "float_neg a = (case a of Not_finite \<Rightarrow> Not_finite | Finite x \<Rightarrow> Finite (- x))"

definition float_ceil :: "fval \<Rightarrow> fval" where
  "float_ceil a = (case a of Not_finite \<Rightarrow> Not_finite | Finite x \<Rightarrow> Finite (of_int \<lceil>x\<rceil>))"

text \<open>
  \<open>log\<close> of the C library, \<open>lg\<close> being what it returns for a double that is positive and
  finite: at 0 the result is minus infinity, below 0 a NaN, at 1 it is 0 (C standard,
  F.10.3.7).
\<close>

definition log_double :: "(real \<Rightarrow> real) \<Rightarrow> fval \<Rightarrow> fval" where
  "log_double lg a =
     (case a of Not_finite \<Rightarrow> Not_finite
      | Finite x \<Rightarrow> if x \<le> 0 then Not_finite else if x = 1 then Finite 0 else Finite (lg x))"

text \<open>
  A double converted to \<open>long int\<close>: its integral part, when that is a \<open>long int\<close>. When
  it is not, and for an infinity or a NaN, the C standard leaves the result open; the
  conversion instruction of x86-64 gives the least \<open>long int\<close>, and so does the model.
\<close>

definition long_of_double :: "fval \<Rightarrow> int" where
  "long_of_double a =
     (case a of Not_finite \<Rightarrow> LONG_MIN
      | Finite x \<Rightarrow>
          let n = (if 0 \<le> x then \<lfloor>x\<rfloor> else \<lceil>x\<rceil>)
          in if LONG_MIN \<le> n \<and> n \<le> LONG_MAX then n else LONG_MIN)"

text \<open>A \<open>log\<close> that rounds correctly.\<close>

definition rounded_ln :: "real \<Rightarrow> real" where
  "rounded_ln x = to_double (ln x)"

subsection \<open>The data of the program\<close>

type_synonym addr = nat

type_synonym ptr = "addr option"  \<comment> \<open>\<open>None\<close> is \<open>NULL\<close>\<close>

definition ARRIVAL :: int where "ARRIVAL = 0"
definition COMPLETE :: int where "COMPLETE = 1"
definition EOS :: int where "EOS = 2"

record event_node =
  ev_type :: int
  ev_time :: int
  cust_index :: ptr
  forward :: ptr
  backward :: ptr

text \<open>\<open>struct Custs\<close>. \<open>malloc\<close> leaves both fields indeterminate: a field is \<open>None\<close>
  until the program writes it.\<close>

record Custs =
  arrive_time :: "int option"
  CPU_time :: "int option"

text \<open>\<open>struct Queue\<close>, with its fields \<open>cust_index\<close> and \<open>next\<close> prefixed (the first
  is a field of \<open>event_node\<close> too).\<close>

record Queue =
  q_cust_index :: ptr
  q_next :: ptr

text \<open>What the program prints: a fixed line, or a line with a number in it.\<close>

datatype out =
    Text string
  | Simulation_time int
  | Mean_response_time fval

text \<open>
  The state: the three malloc'ed kinds of object, each in a heap of its own, the globals
  of the program under their names (\<open>sjf.q_head\<close> and \<open>sjf.q_last\<close> as \<open>q_head\<close> and
  \<open>q_last\<close>: \<open>sjf\<close> is the only \<open>Queue_struct\<close>, and every \<open>pqueue\<close> is \<open>&sjf\<close>), and
  the C library: \<open>brk\<close> is the address the next \<open>malloc\<close> returns (\<open>malloc\<close> is taken
  never to fail and never to return an address again), \<open>libc_rand sd i\<close> is the result
  of the \<open>i\<close>-th call of \<open>rand()\<close> after \<open>srand(sd)\<close>, \<open>rand_pos\<close> counts the calls,
  \<open>RAND_MAX\<close> is the library's constant, \<open>libm_log\<close> is the library's \<open>log\<close> on the
  doubles that are positive and finite, \<open>stdout\<close> what was printed. The four variables
  of type \<open>float\<close> hold finite floats.
\<close>

record sim =
  events :: "addr \<rightharpoonup> event_node"
  top_event :: ptr
  last_event :: ptr
  custs :: "addr \<rightharpoonup> Custs"
  queue :: "addr \<rightharpoonup> Queue"
  q_head :: ptr
  q_last :: ptr
  accum_resp_time :: real
  num_resp_time :: real
  iarrive_time :: real
  service_time :: real
  sim_length :: int
  clock :: int
  busy :: bool
  seed :: nat
  libc_seed :: nat
  brk :: addr
  libc_rand :: "nat \<Rightarrow> nat \<Rightarrow> int"
  rand_pos :: nat
  RAND_MAX :: int
  libm_log :: "real \<Rightarrow> real"
  stdout :: "out list"

definition printf :: "out \<Rightarrow> sim \<Rightarrow> sim" where
  "printf l s = s\<lparr>stdout := stdout s @ [l]\<rparr>"

subsection \<open>Reading and writing through pointers\<close>

definition deref :: "(addr \<rightharpoonup> 'a) \<Rightarrow> ptr \<Rightarrow> 'a res" where
  "deref h p =
     (case p of None \<Rightarrow> Fault Null_pointer
      | Some a \<Rightarrow> (case h a of None \<Rightarrow> Fault Wild_pointer | Some x \<Rightarrow> Returns x))"

definition ev_write :: "ptr \<Rightarrow> (event_node \<Rightarrow> event_node) \<Rightarrow> sim \<Rightarrow> sim res" where
  "ev_write p f s =
     and_then (deref (events s) p) (\<lambda>n. Returns (s\<lparr>events := (events s)(the p \<mapsto> f n)\<rparr>))"

definition q_write :: "ptr \<Rightarrow> (Queue \<Rightarrow> Queue) \<Rightarrow> sim \<Rightarrow> sim res" where
  "q_write p f s =
     and_then (deref (queue s) p) (\<lambda>n. Returns (s\<lparr>queue := (queue s)(the p \<mapsto> f n)\<rparr>))"

definition cust_write :: "ptr \<Rightarrow> (Custs \<Rightarrow> Custs) \<Rightarrow> sim \<Rightarrow> sim res" where
  "cust_write p f s =
     and_then (deref (custs s) p) (\<lambda>c. Returns (s\<lparr>custs := (custs s)(the p \<mapsto> f c)\<rparr>))"

definition initialised :: "'a option \<Rightarrow> 'a res" where
  "initialised v = (case v of None \<Rightarrow> Fault Uninitialised | Some x \<Rightarrow> Returns x)"

text \<open>\<open>p->cust_index->CPU_time\<close> for a queue node \<open>p\<close>.\<close>

definition node_CPU_time :: "sim \<Rightarrow> ptr \<Rightarrow> int res" where
  "node_CPU_time s p =
     and_then (deref (queue s) p) (\<lambda>n.
     and_then (deref (custs s) (q_cust_index n)) (\<lambda>c. initialised (CPU_time c)))"

text \<open>\<open>free(p)\<close>: nothing for \<open>NULL\<close>, undefined for memory that is not allocated.\<close>

definition free :: "(addr \<rightharpoonup> 'a) \<Rightarrow> ptr \<Rightarrow> (addr \<rightharpoonup> 'a) res" where
  "free h p =
     (case p of None \<Rightarrow> Returns h
      | Some a \<Rightarrow> (case h a of None \<Rightarrow> Fault Wild_pointer | Some x \<Rightarrow> Returns (h(a := None))))"

subsection \<open>expon\<close>

text \<open>
  \<^verbatim>\<open>
  long int expon(float time)
    {
    long int val;
    double temp;
    time = time * 100;
    temp = 1.0 - (rand()/ (float) RAND_MAX);
    val = ceil(-time * log((double) temp));
    return(val);
    }
  \<close>
  The C standard gives \<open>0 \<le> rand() \<le> RAND_MAX\<close>, both bounds included.
\<close>

definition rand :: "sim \<Rightarrow> int \<times> sim" where
  "rand s = (libc_rand s (libc_seed s) (rand_pos s), s\<lparr>rand_pos := Suc (rand_pos s)\<rparr>)"

definition srand :: "nat \<Rightarrow> sim \<Rightarrow> sim" where
  "srand sd s = s\<lparr>libc_seed := sd, rand_pos := 0\<rparr>"

text \<open>\<open>rand() / (float) RAND_MAX\<close>: both are converted to \<open>float\<close> and divided as floats.\<close>

definition uniform :: "int \<Rightarrow> int \<Rightarrow> fval" where
  "uniform rm r =
     (if float_of_int rm = 0 then Not_finite
      else float32 (float_of_int r / float_of_int rm))"

text \<open>The uniform draw the next call of \<open>expon\<close> makes.\<close>

definition next_draw :: "sim \<Rightarrow> fval" where
  "next_draw s = uniform (RAND_MAX s) (fst (rand s))"

text \<open>
  The double \<open>ceil(-time * log((double) temp))\<close>, from the parameter \<open>time\<close> and the draw:
  \<open>time * 100\<close> is a product of floats, \<open>1.0 - draw\<close> a difference of doubles, and
  \<open>-time * log(temp)\<close> a product of doubles.
\<close>

definition variate :: "(real \<Rightarrow> real) \<Rightarrow> real \<Rightarrow> fval \<Rightarrow> fval" where
  "variate lg time draw =
     (let time' = float32 (time * 100);
          temp = float64_sub (Finite 1) draw
      in float_ceil (float64_mul (float_neg time') (log_double lg temp)))"

definition expon :: "real \<Rightarrow> sim \<Rightarrow> (int \<times> sim) res" where
  "expon time s =
     (let (r, s') = rand s;
          val = long_of_double (variate (libm_log s) time (uniform (RAND_MAX s) r))
      in Returns (val, s'))"

text \<open>
  What the program may expect of its C library: \<open>RAND_MAX\<close> is a positive \<open>int\<close>, and
  on the doubles between 0 and 1 the relative error of \<open>log\<close> is at most \<open>2^-51\<close> (an
  error of one unit in the last place is less).
\<close>

definition INT_MAX :: int where
  "INT_MAX = 2 ^ 31 - 1"

definition log_ok :: "(real \<Rightarrow> real) \<Rightarrow> bool" where
  "log_ok lg \<longleftrightarrow>
     (\<forall>x. is_float64 x \<and> 0 < x \<and> x < 1 \<longrightarrow> \<bar>lg x - ln x\<bar> \<le> 2 powi (- 51) * \<bar>ln x\<bar>)"

definition lib_ok :: "sim \<Rightarrow> bool" where
  "lib_ok s \<longleftrightarrow> 0 < RAND_MAX s \<and> RAND_MAX s \<le> INT_MAX \<and> log_ok (libm_log s)"

subsection \<open>The event list: Insert\_event, Remove\_event\<close>

text \<open>The search loop of \<open>Insert_event\<close>, on its two variables \<open>pos\<close> and \<open>not_found\<close>:
  \<^verbatim>\<open>
  while(pos != NULL && not_found)
         {
        if(pos->ev_time > etime)
                not_found = FALSE;
         else
                pos = pos->forward;
         }
  \<close>\<close>

partial_function (option) Insert_event_loop ::
  "(addr \<rightharpoonup> event_node) \<Rightarrow> int \<Rightarrow> ptr \<Rightarrow> bool \<Rightarrow> (ptr \<times> bool) res option" where
  "Insert_event_loop h etime pos not_found =
     (if pos \<noteq> None \<and> not_found then
        (case deref h pos of
           Fault f \<Rightarrow> Some (Fault f)
         | Diverges \<Rightarrow> None
         | Returns n \<Rightarrow>
             if ev_time n > etime then Insert_event_loop h etime pos False
             else Insert_event_loop h etime (forward n) not_found)
      else Some (Returns (pos, not_found)))"

definition Insert_event :: "int \<Rightarrow> int \<Rightarrow> ptr \<Rightarrow> sim \<Rightarrow> sim res" where
  "Insert_event etype etime custind s0 =
     (let loc = Some (brk s0);
          s = s0\<lparr>brk := Suc (brk s0),
                 events := (events s0)(brk s0 \<mapsto>
                   \<lparr>ev_type = etype, ev_time = etime, cust_index = custind,
                    forward = None, backward = None\<rparr>)\<rparr>
      in
      if top_event s = None then
        Returns (s\<lparr>top_event := loc, last_event := loc\<rparr>)
      else
        and_then (deref (events s) (top_event s)) (\<lambda>top.
        if ev_time top > etime then
          and_then (ev_write (top_event s) (\<lambda>n. n\<lparr>backward := loc\<rparr>) s) (\<lambda>s.
          and_then (ev_write loc (\<lambda>n. n\<lparr>forward := top_event s\<rparr>) s) (\<lambda>s.
          Returns (s\<lparr>top_event := loc\<rparr>)))
        else
          and_then (deref (events s) (last_event s)) (\<lambda>last.
          if ev_time last \<le> etime then
            and_then (ev_write (last_event s) (\<lambda>n. n\<lparr>forward := loc\<rparr>) s) (\<lambda>s.
            and_then (ev_write loc (\<lambda>n. n\<lparr>backward := last_event s\<rparr>) s) (\<lambda>s.
            Returns (s\<lparr>last_event := loc\<rparr>)))
          else
            and_then (finished (Insert_event_loop (events s) etime (top_event s) True))
              (\<lambda>(pos, not_found).
            if not_found then
              Returns (printf (Text '' ***Error - problems in insert event routine***'') s)
            else
              and_then (ev_write loc (\<lambda>n. n\<lparr>forward := pos\<rparr>) s) (\<lambda>s.
              and_then (deref (events s) pos) (\<lambda>p.
              and_then (ev_write loc (\<lambda>n. n\<lparr>backward := backward p\<rparr>) s) (\<lambda>s.
              and_then (deref (events s) pos) (\<lambda>p.
              and_then (ev_write (backward p) (\<lambda>n. n\<lparr>forward := loc\<rparr>) s) (\<lambda>s.
              and_then (ev_write pos (\<lambda>n. n\<lparr>backward := loc\<rparr>) s) Returns)))))))))"

definition Remove_event :: "sim \<Rightarrow> (ptr \<times> sim) res" where
  "Remove_event s =
     (if last_event s = None then
        Returns (None, printf (Text '' ***Error - Event list underflow***'') s)
      else
        let ev_ptr = top_event s in
        if top_event s = last_event s then
          Returns (ev_ptr, s\<lparr>top_event := None, last_event := None\<rparr>)
        else
          and_then (deref (events s) (top_event s)) (\<lambda>top.
          let s = s\<lparr>top_event := forward top\<rparr> in
          and_then (ev_write (top_event s) (\<lambda>n. n\<lparr>backward := None\<rparr>) s) (\<lambda>s.
          and_then (ev_write ev_ptr (\<lambda>n. n\<lparr>forward := None\<rparr>) s) (\<lambda>s.
          Returns (ev_ptr, s)))))"

subsection \<open>The waiting queue: Puton\_queue, Takoff\_queue\<close>

text \<open>The search loop of \<open>Puton_queue\<close>, which returns from inside:
  \<^verbatim>\<open>
  do{
      if(newnode->cust_index->CPU_time < following_node->cust_index->CPU_time){
          newnode->next = previous_node->next;
          previous_node->next = newnode;
          return;
      }
      previous_node = previous_node->next;
      following_node = following_node->next;
  }while(searching);
  \<close>\<close>

partial_function (option) Puton_queue_loop ::
  "sim \<Rightarrow> ptr \<Rightarrow> ptr \<Rightarrow> ptr \<Rightarrow> sim res option" where
  "Puton_queue_loop s newnode previous_node following_node =
     (case node_CPU_time s newnode of
        Fault f \<Rightarrow> Some (Fault f)
      | Diverges \<Rightarrow> None
      | Returns new \<Rightarrow>
     (case node_CPU_time s following_node of
        Fault f \<Rightarrow> Some (Fault f)
      | Diverges \<Rightarrow> None
      | Returns following \<Rightarrow>
          if new < following then
            Some (and_then (deref (queue s) previous_node) (\<lambda>p.
                  and_then (q_write newnode (\<lambda>n. n\<lparr>q_next := q_next p\<rparr>) s) (\<lambda>s.
                  q_write previous_node (\<lambda>n. n\<lparr>q_next := newnode\<rparr>) s)))
          else
            (case deref (queue s) previous_node of
               Fault f \<Rightarrow> Some (Fault f)
             | Diverges \<Rightarrow> None
             | Returns p \<Rightarrow>
            (case deref (queue s) following_node of
               Fault f \<Rightarrow> Some (Fault f)
             | Diverges \<Rightarrow> None
             | Returns f \<Rightarrow> Puton_queue_loop s newnode (q_next p) (q_next f)))))"

definition Puton_queue :: "ptr \<Rightarrow> sim \<Rightarrow> sim res" where
  "Puton_queue pcust s0 =
     (let newnode = Some (brk s0);
          s = s0\<lparr>brk := Suc (brk s0),
                 queue := (queue s0)(brk s0 \<mapsto> \<lparr>q_cust_index = pcust, q_next = None\<rparr>)\<rparr>
      in
      if q_last s = None then
        Returns (s\<lparr>q_head := newnode, q_last := newnode\<rparr>)
      else
        and_then (node_CPU_time s newnode) (\<lambda>new.
        and_then (node_CPU_time s (q_head s)) (\<lambda>head.
        if new < head then
          and_then (q_write newnode (\<lambda>n. n\<lparr>q_next := q_head s\<rparr>) s) (\<lambda>s.
          Returns (s\<lparr>q_head := newnode\<rparr>))
        else
          and_then (node_CPU_time s (q_last s)) (\<lambda>last.
          if new \<ge> last then
            and_then (q_write (q_last s) (\<lambda>n. n\<lparr>q_next := newnode\<rparr>) s) (\<lambda>s.
            Returns (s\<lparr>q_last := newnode\<rparr>))
          else
            and_then (deref (queue s) (q_head s)) (\<lambda>h.
            finished (Puton_queue_loop s newnode (q_head s) (q_next h)))))))"

definition Takoff_queue :: "sim \<Rightarrow> (ptr \<times> sim) res" where
  "Takoff_queue s =
     (if q_head s = None then
        Returns (None, printf (Text '' ***Error - queue underflow***'') s)
      else
        let loc = q_head s in
        and_then (deref (queue s) loc) (\<lambda>l.
        let index = q_cust_index l in
        if q_head s = q_last s then
          Returns (index, s\<lparr>q_last := None, q_head := None\<rparr>)
        else
          let s = s\<lparr>q_head := q_next l\<rparr> in
          and_then (free (queue s) loc) (\<lambda>h.
          Returns (index, s\<lparr>queue := h\<rparr>))))"

subsection \<open>The driver\<close>

definition Gen_arrival :: "sim \<Rightarrow> sim res" where
  "Gen_arrival s0 =
     (let index = Some (brk s0);
          s = s0\<lparr>brk := Suc (brk s0),
                 custs := (custs s0)(brk s0 \<mapsto> \<lparr>arrive_time = None, CPU_time = None\<rparr>)\<rparr>
      in
      and_then (expon (iarrive_time s) s) (\<lambda>(time, s).
      and_then (to_long (clock s + time)) (\<lambda>t.
      Insert_event ARRIVAL t index s)))"

definition Gen_departure :: "ptr \<Rightarrow> sim \<Rightarrow> sim res" where
  "Gen_departure index s =
     and_then (deref (custs s) index) (\<lambda>c.
     and_then (initialised (CPU_time c)) (\<lambda>time.
     and_then (to_long (time + clock s)) (\<lambda>t.
     Insert_event COMPLETE t index s)))"

definition start_service :: "sim \<Rightarrow> sim res" where
  "start_service s =
     and_then (Takoff_queue s) (\<lambda>(index, s).
     let s = s\<lparr>busy := True\<rparr> in
     Gen_departure index s)"

definition arrive :: "ptr \<Rightarrow> sim \<Rightarrow> sim res" where
  "arrive ev_num s =
     and_then (Gen_arrival s) (\<lambda>s.
     and_then (deref (events s) ev_num) (\<lambda>ev.
     let index = cust_index ev in
     and_then (cust_write index (\<lambda>c. c\<lparr>arrive_time := Some (clock s)\<rparr>) s) (\<lambda>s.
     and_then (expon (service_time s) s) (\<lambda>(val, s).
     and_then (cust_write index (\<lambda>c. c\<lparr>CPU_time := Some val\<rparr>) s) (\<lambda>s.
     and_then (Puton_queue index s) (\<lambda>s.
     if \<not> busy s then start_service s else Returns s))))))"

text \<open>In \<open>depart\<close>, \<open>accum_resp_time += temp\<close> converts the \<open>long int\<close> to \<open>float\<close> and adds
  two floats, and \<open>num_resp_time++\<close> adds the float 1.\<close>

definition depart :: "ptr \<Rightarrow> sim \<Rightarrow> sim res" where
  "depart ev_num s =
     (let s = s\<lparr>busy := False\<rparr> in
      and_then (deref (events s) ev_num) (\<lambda>ev.
      let index = cust_index ev in
      and_then (deref (custs s) index) (\<lambda>c.
      and_then (initialised (arrive_time c)) (\<lambda>a.
      and_then (to_long (clock s - a)) (\<lambda>temp.
      let s = s\<lparr>accum_resp_time := float32_add (accum_resp_time s) (float_of_int temp)\<rparr>;
          s = s\<lparr>num_resp_time := float32_add (num_resp_time s) 1\<rparr>
      in
      and_then (free (custs s) index) (\<lambda>h.
      let s = s\<lparr>custs := h\<rparr> in
      if q_head s \<noteq> None then start_service s else Returns s))))))"

text \<open>\<open>Read_parms\<close> reads four numbers from the operator: they are its arguments here.\<close>

definition Read_parms :: "real \<Rightarrow> real \<Rightarrow> int \<Rightarrow> nat \<Rightarrow> sim \<Rightarrow> sim" where
  "Read_parms ia st len sd s =
     (let s = printf (Text ''   SIMULATION -- M/M/1 Queueing System'') s;
          s = printf (Text ''      Input the following parameters:'') s;
          s = printf (Text ''      mean interarrival time => '') s;
          s = s\<lparr>iarrive_time := ia\<rparr>;
          s = printf (Text ''      mean service time => '') s;
          s = s\<lparr>service_time := st\<rparr>;
          s = printf (Text ''      length of simulation => '') s;
          s = s\<lparr>sim_length := len\<rparr>;
          s = printf (Text ''      seed for the random number generator => '') s;
          s = s\<lparr>seed := sd\<rparr>;
          s = srand (seed s) s;
          s = printf (Simulation_time (sim_length s)) s
      in printf (Text '' Simulation begins...'') s)"

text \<open>The quotient that \<open>Process_statistics\<close> prints is taken over the reals: the
  roundings to \<open>float\<close> of \<open>100.0 * num_resp_time\<close> and of the quotient are not modelled.\<close>

definition float_div :: "real \<Rightarrow> real \<Rightarrow> fval" where
  "float_div x y = (if y = 0 then Not_finite else Finite (x / y))"

definition Process_statistics :: "sim \<Rightarrow> sim" where
  "Process_statistics s =
     (let mean_resp_time = float_div (accum_resp_time s) (100 * num_resp_time s);
          s = printf (Text ''...Simulation ends'') s;
          s = printf (Text '' Simulation results'') s
      in printf (Mean_response_time mean_resp_time) s)"

definition Initialize :: "sim \<Rightarrow> sim" where
  "Initialize s =
     s\<lparr>top_event := None, last_event := None, q_head := None, q_last := None,
       clock := 0, busy := False, accum_resp_time := 0, num_resp_time := 0\<rparr>"

text \<open>One round of the loop of \<open>main\<close>; the boolean is \<open>not_done\<close>.\<close>

definition main_body :: "sim \<Rightarrow> (sim \<times> bool) res" where
  "main_body s =
     and_then (Remove_event s) (\<lambda>(event, s).
     and_then (deref (events s) event) (\<lambda>ev.
     let s = s\<lparr>clock := ev_time ev\<rparr> in
     and_then (deref (events s) event) (\<lambda>ev.
     and_then
       (if ev_type ev = ARRIVAL then and_then (arrive event s) (\<lambda>s. Returns (s, True))
        else if ev_type ev = COMPLETE then and_then (depart event s) (\<lambda>s. Returns (s, True))
        else if ev_type ev = EOS then Returns (Process_statistics s, False)
        else Returns (printf (Text ''***Error - invalid event type'') s, True))
       (\<lambda>(s, not_done).
     and_then (free (events s) event) (\<lambda>h.
     Returns (s\<lparr>events := h\<rparr>, not_done))))))"

partial_function (option) main_loop :: "sim \<Rightarrow> sim res option" where
  "main_loop s =
     (case main_body s of
        Fault f \<Rightarrow> Some (Fault f)
      | Diverges \<Rightarrow> None
      | Returns (s, not_done) \<Rightarrow> if not_done then main_loop s else Some (Returns s))"

text \<open>The state \<open>main\<close> starts in: nothing allocated, nothing printed, every global zero.
  The library (\<open>RAND_MAX\<close> and the generator) and the operator's four numbers are the
  arguments; the library's \<open>log\<close> is one that rounds correctly.\<close>

definition boot :: "int \<Rightarrow> (nat \<Rightarrow> nat \<Rightarrow> int) \<Rightarrow> sim" where
  "boot rm gen =
     \<lparr>events = Map.empty, top_event = None, last_event = None, custs = Map.empty,
      queue = Map.empty, q_head = None, q_last = None, accum_resp_time = 0,
      num_resp_time = 0, iarrive_time = 0, service_time = 0, sim_length = 0, clock = 0,
      busy = False, seed = 0, libc_seed = 1, brk = 0, libc_rand = gen, rand_pos = 0, RAND_MAX = rm,
      libm_log = rounded_ln, stdout = []\<rparr>"

text \<open>\<open>main\<close> up to its loop.\<close>

definition main_init :: "real \<Rightarrow> real \<Rightarrow> int \<Rightarrow> nat \<Rightarrow> sim \<Rightarrow> sim res" where
  "main_init ia st len sd s =
     (let s = Initialize s;
          s = Read_parms ia st len sd s
      in
      and_then (Insert_event EOS (sim_length s) None s) Gen_arrival)"

definition main :: "real \<Rightarrow> real \<Rightarrow> int \<Rightarrow> nat \<Rightarrow> sim \<Rightarrow> sim res" where
  "main ia st len sd s =
     and_then (main_init ia st len sd s) (\<lambda>s. finished (main_loop s))"

section \<open>The lists the heaps hold\<close>

text \<open>
  \<open>dlist h prev p as q\<close>: following \<open>forward\<close> from \<open>p\<close> visits the nodes at the
  addresses \<open>as\<close>, in this order, and arrives at \<open>q\<close>; the \<open>backward\<close> field of each
  node points to the node before it, that of the first one to \<open>prev\<close>.
\<close>

primrec dlist :: "(addr \<rightharpoonup> event_node) \<Rightarrow> ptr \<Rightarrow> ptr \<Rightarrow> addr list \<Rightarrow> ptr \<Rightarrow> bool" where
  "dlist h prev p [] q \<longleftrightarrow> p = q"
| "dlist h prev p (a # as) q \<longleftrightarrow>
     p = Some a \<and>
     (case h a of None \<Rightarrow> False
      | Some n \<Rightarrow> backward n = prev \<and> dlist h (Some a) (forward n) as q)"

definition last_ptr :: "addr list \<Rightarrow> ptr" where
  "last_ptr as = (if as = [] then None else Some (last as))"

text \<open>The event list of state \<open>s\<close> is well formed and holds the nodes \<open>as\<close>, first to last.\<close>

definition timeline :: "sim \<Rightarrow> addr list \<Rightarrow> bool" where
  "timeline s as \<longleftrightarrow>
     dlist (events s) None (top_event s) as None \<and> distinct as \<and> last_event s = last_ptr as"

text \<open>What an event node says, without its links.\<close>

definition payload :: "event_node \<Rightarrow> int \<times> int \<times> ptr" where
  "payload n = (ev_type n, ev_time n, cust_index n)"

definition event_at :: "sim \<Rightarrow> addr \<Rightarrow> int \<times> int \<times> ptr" where
  "event_at s a = payload (the (events s a))"

definition time_at :: "sim \<Rightarrow> addr \<Rightarrow> int" where
  "time_at s a = ev_time (the (events s a))"

text \<open>Where a new event of time \<open>t\<close> belongs in a list: after every event of a time up
  to \<open>t\<close> that stands before the first later one.\<close>

definition insert_at :: "('a \<Rightarrow> int) \<Rightarrow> int \<Rightarrow> 'a \<Rightarrow> 'a list \<Rightarrow> 'a list" where
  "insert_at key t x xs = takeWhile (\<lambda>y. key y \<le> t) xs @ x # dropWhile (\<lambda>y. key y \<le> t) xs"

text \<open>No address from \<open>b\<close> on is allocated in heap \<open>h\<close>.\<close>

definition unused_from :: "(addr \<rightharpoonup> 'a) \<Rightarrow> addr \<Rightarrow> bool" where
  "unused_from h b \<longleftrightarrow> (\<forall>a. b \<le> a \<longrightarrow> h a = None)"

text \<open>Two heaps of event nodes that differ in links only.\<close>

definition links_only :: "(addr \<rightharpoonup> event_node) \<Rightarrow> (addr \<rightharpoonup> event_node) \<Rightarrow> bool" where
  "links_only h h' \<longleftrightarrow> (\<forall>a. map_option payload (h' a) = map_option payload (h a))"

text \<open>The mean response times among the lines printed.\<close>

fun reports :: "out list \<Rightarrow> fval list" where
  "reports [] = []"
| "reports (Mean_response_time v # ls) = v # reports ls"
| "reports (l # ls) = reports ls"

text \<open>The state without what the functions of the event list may change.\<close>

definition ev_frame :: "sim \<Rightarrow> sim" where
  "ev_frame s =
     s\<lparr>events := Map.empty, top_event := None, last_event := None, brk := 0, stdout := []\<rparr>"

definition ev_effect :: "sim \<Rightarrow> sim \<Rightarrow> bool" where
  "ev_effect s s' \<longleftrightarrow>
     ev_frame s' = ev_frame s \<and> brk s' = brk s \<and> links_only (events s) (events s')
     \<and> reports (stdout s') = reports (stdout s)"

text \<open>\<open>Remove_event\<close> called \<open>n\<close> times in a row, and the pointers it returned.\<close>

fun Remove_events :: "nat \<Rightarrow> sim \<Rightarrow> (ptr list \<times> sim) res" where
  "Remove_events 0 s = Returns ([], s)"
| "Remove_events (Suc n) s =
     and_then (Remove_event s) (\<lambda>(p, s).
     and_then (Remove_events n s) (\<lambda>(ps, s). Returns (p # ps, s)))"

text \<open>
  \<open>qlist h p as q\<close>: following \<open>next\<close> from \<open>p\<close> visits the queue nodes at the
  addresses \<open>as\<close>, in this order, and arrives at \<open>q\<close>.
\<close>

primrec qlist :: "(addr \<rightharpoonup> Queue) \<Rightarrow> ptr \<Rightarrow> addr list \<Rightarrow> ptr \<Rightarrow> bool" where
  "qlist h p [] q \<longleftrightarrow> p = q"
| "qlist h p (a # as) q \<longleftrightarrow>
     p = Some a \<and> (case h a of None \<Rightarrow> False | Some n \<Rightarrow> qlist h (q_next n) as q)"

text \<open>The waiting queue of state \<open>s\<close> is well formed and holds the nodes \<open>as\<close>, first to
  last.\<close>

definition waiting :: "sim \<Rightarrow> addr list \<Rightarrow> bool" where
  "waiting s as \<longleftrightarrow>
     qlist (queue s) (q_head s) as None \<and> distinct as \<and> q_last s = last_ptr as"

text \<open>The customer of the queue node at \<open>q\<close>, and its burst; \<open>queued_ok\<close>: the node, its
  customer and the customer's burst can be read.\<close>

definition cust_at :: "sim \<Rightarrow> addr \<Rightarrow> ptr" where
  "cust_at s q = q_cust_index (the (queue s q))"

definition burst_at :: "sim \<Rightarrow> addr \<Rightarrow> int" where
  "burst_at s q = the (CPU_time (the (custs s (the (cust_at s q)))))"

definition queued_ok :: "sim \<Rightarrow> addr \<Rightarrow> bool" where
  "queued_ok s q \<longleftrightarrow> node_CPU_time s (Some q) = Returns (burst_at s q)"

text \<open>The state without what the functions of the waiting queue may change, and what
  they do to the rest: the customers of the nodes stay.\<close>

definition q_frame :: "sim \<Rightarrow> sim" where
  "q_frame s = s\<lparr>queue := Map.empty, q_head := None, q_last := None, brk := 0, stdout := []\<rparr>"

definition q_effect :: "sim \<Rightarrow> sim \<Rightarrow> bool" where
  "q_effect s s' \<longleftrightarrow>
     q_frame s' = q_frame s \<and> brk s' = brk s
     \<and> (\<forall>a. map_option q_cust_index (queue s' a) = map_option q_cust_index (queue s a))
     \<and> reports (stdout s') = reports (stdout s)"

text \<open>What holds of the result of a computation, if it returns one.\<close>

definition post :: "'a res \<Rightarrow> ('a \<Rightarrow> bool) \<Rightarrow> bool" where
  "post m Q \<longleftrightarrow> (\<forall>x. m = Returns x \<longrightarrow> Q x)"

section \<open>The lines printed\<close>


section \<open>States to try the functions on\<close>

text \<open>A \<open>rand()\<close> that returns \<open>r\<close> at every call, and one that returns \<open>r\<close> at the
  first call after \<open>srand\<close> and \<open>r'\<close> at every other.\<close>

definition rand_always :: "int \<Rightarrow> nat \<Rightarrow> nat \<Rightarrow> int" where
  "rand_always r sd i = r"

definition rand_first :: "int \<Rightarrow> int \<Rightarrow> nat \<Rightarrow> nat \<Rightarrow> int" where
  "rand_first r r' sd i = (if i = 0 then r else r')"

text \<open>A waiting queue of two customers, of bursts 2 and 10, and a third customer, of
  burst 5, who is not in the queue.\<close>

definition queue_example :: sim where
  "queue_example = (boot 2147483647 (rand_always 0))\<lparr>brk := 5,
     custs := [0 \<mapsto> \<lparr>arrive_time = Some 0, CPU_time = Some 2\<rparr>,
               1 \<mapsto> \<lparr>arrive_time = Some 0, CPU_time = Some 10\<rparr>,
               2 \<mapsto> \<lparr>arrive_time = Some 0, CPU_time = Some 5\<rparr>],
     queue := [3 \<mapsto> \<lparr>q_cust_index = Some 0, q_next = Some 4\<rparr>,
               4 \<mapsto> \<lparr>q_cust_index = Some 1, q_next = None\<rparr>],
     q_head := Some 3, q_last := Some 4\<rparr>"


text \<open>The state after 16777216 customers have completed, with a response time of one
  tick each: the server is busy with customer 1, who arrived at time 19999999 and whose
  departure event (node 0) has just been removed from the event list at time 20000000;
  customer 2 waits; the event list holds the next arrival, of customer 7, and the end of
  the simulation. And the state that \<open>depart\<close> leaves then.\<close>

definition long_run_example :: sim where
  "long_run_example = (boot 2147483647 (rand_always 0))\<lparr>brk := 8, clock := 20000000,
     busy := True, sim_length := 30000000,
     accum_resp_time := 16777216, num_resp_time := 16777216,
     custs := [1 \<mapsto> \<lparr>arrive_time = Some 19999999, CPU_time = Some 1\<rparr>,
               2 \<mapsto> \<lparr>arrive_time = Some 20000000, CPU_time = Some 6\<rparr>,
               7 \<mapsto> \<lparr>arrive_time = None, CPU_time = None\<rparr>],
     queue := [3 \<mapsto> \<lparr>q_cust_index = Some 2, q_next = None\<rparr>],
     q_head := Some 3, q_last := Some 3,
     events := [0 \<mapsto> \<lparr>ev_type = COMPLETE, ev_time = 20000000, cust_index = Some 1,
                      forward = None, backward = None\<rparr>,
                4 \<mapsto> \<lparr>ev_type = EOS, ev_time = 30000000, cust_index = None,
                      forward = None, backward = Some 6\<rparr>,
                6 \<mapsto> \<lparr>ev_type = ARRIVAL, ev_time = 20000003, cust_index = Some 7,
                      forward = Some 4, backward = None\<rparr>],
     top_event := Some 6, last_event := Some 4\<rparr>"

definition long_run_departed :: sim where
  "long_run_departed = long_run_example\<lparr>brk := 9, busy := True,
     custs := [2 \<mapsto> \<lparr>arrive_time = Some 20000000, CPU_time = Some 6\<rparr>,
               7 \<mapsto> \<lparr>arrive_time = None, CPU_time = None\<rparr>],
     q_head := None, q_last := None,
     events := [0 \<mapsto> \<lparr>ev_type = COMPLETE, ev_time = 20000000, cust_index = Some 1,
                      forward = None, backward = None\<rparr>,
                4 \<mapsto> \<lparr>ev_type = EOS, ev_time = 30000000, cust_index = None,
                      forward = None, backward = Some 8\<rparr>,
                6 \<mapsto> \<lparr>ev_type = ARRIVAL, ev_time = 20000003, cust_index = Some 7,
                      forward = Some 8, backward = None\<rparr>,
                8 \<mapsto> \<lparr>ev_type = COMPLETE, ev_time = 20000006, cust_index = Some 2,
                      forward = Some 4, backward = Some 6\<rparr>]\<rparr>"

text \<open>A run with the usual \<open>RAND_MAX = 2^31 - 1\<close>, in which the first \<open>rand()\<close> is
  \<open>RAND_MAX\<close> and every other is 0, both means 1 and the simulation length 5: the state
  at the start of the main loop, and the state after its first round.\<close>

definition backwards_start :: sim where
  "backwards_start =
     (Read_parms 1 1 5 0 (Initialize (boot 2147483647 (rand_first 2147483647 0))))\<lparr>
     brk := 3, rand_pos := 1,
     custs := [1 \<mapsto> \<lparr>arrive_time = None, CPU_time = None\<rparr>],
     events := [0 \<mapsto> \<lparr>ev_type = EOS, ev_time = 5, cust_index = None, forward = None,
                      backward = Some 2\<rparr>,
                2 \<mapsto> \<lparr>ev_type = ARRIVAL, ev_time = LONG_MIN, cust_index = Some 1,
                      forward = Some 0, backward = None\<rparr>],
     top_event := Some 2, last_event := Some 0\<rparr>"

definition backwards_round :: sim where
  "backwards_round = backwards_start\<lparr>brk := 7, rand_pos := 3, clock := LONG_MIN, busy := True,
     custs := [1 \<mapsto> \<lparr>arrive_time = Some LONG_MIN, CPU_time = Some 0\<rparr>,
               3 \<mapsto> \<lparr>arrive_time = None, CPU_time = None\<rparr>],
     queue := [5 \<mapsto> \<lparr>q_cust_index = Some 1, q_next = None\<rparr>],
     events := [0 \<mapsto> \<lparr>ev_type = EOS, ev_time = 5, cust_index = None, forward = None,
                      backward = Some 6\<rparr>,
                4 \<mapsto> \<lparr>ev_type = ARRIVAL, ev_time = LONG_MIN, cust_index = Some 3,
                      forward = Some 6, backward = None\<rparr>,
                6 \<mapsto> \<lparr>ev_type = COMPLETE, ev_time = LONG_MIN, cust_index = Some 1,
                      forward = Some 0, backward = Some 4\<rparr>],
     top_event := Some 4, last_event := Some 0\<rparr>"

section \<open>Properties\<close>

subsection \<open>Results\<close>

lemma and_then_simps [simp]:
  "and_then (Returns x) f = f x"
  "and_then (Fault e) f = Fault e"
  "and_then Diverges f = Diverges"
  by (simp_all add: and_then_def)

lemma and_then_Returns:
  "and_then m f = Returns y \<longleftrightarrow> (\<exists>x. m = Returns x \<and> f x = Returns y)"
  by (cases m) simp_all

lemma finished_simps [simp]:
  "finished None = Diverges"
  "finished (Some r) = r"
  by (simp_all add: finished_def)

lemma to_long_Returns: "to_long v = Returns w \<longleftrightarrow> w = v \<and> LONG_MIN \<le> v \<and> v \<le> LONG_MAX"
  by (auto simp: to_long_def)

lemma deref_Returns: "deref h p = Returns x \<longleftrightarrow> (\<exists>a. p = Some a \<and> h a = Some x)"
  by (auto simp: deref_def split: option.splits)

lemma deref_Some [simp]: "h a = Some x \<Longrightarrow> deref h (Some a) = Returns x"
  by (simp add: deref_def)

lemma deref_None [simp]: "deref h None = Fault Null_pointer"
  by (simp add: deref_def)

subsection \<open>Rounding\<close>

lemma expo_bounds:
  assumes "x \<noteq> 0"
  shows "2 powi expo x \<le> \<bar>x\<bar>" "\<bar>x\<bar> < 2 powi (expo x + 1)"
proof -
  from assms have "0 < \<bar>x\<bar>" by simp
  from floor_log_eq_powr_iff [OF this, of 2 "expo x"]
  have "2 powr (real_of_int (expo x)) \<le> \<bar>x\<bar> \<and> \<bar>x\<bar> < 2 powr (real_of_int (expo x) + 1)"
    by (simp add: expo_def)
  then show "2 powi expo x \<le> \<bar>x\<bar>" "\<bar>x\<bar> < 2 powi (expo x + 1)"
    using powr_real_of_int' [of 2 "expo x"] powr_real_of_int' [of 2 "expo x + 1"]
    by simp_all
qed

lemma expo_eqI:
  assumes "2 powi k \<le> \<bar>x\<bar>" "\<bar>x\<bar> < 2 powi (k + 1)"
  shows "expo x = k"
proof -
  have "(0::real) < 2 powi k" by simp
  with assms(1) have "0 < \<bar>x\<bar>" by linarith
  from floor_log_eq_powr_iff [OF this, of 2 k] assms
  show ?thesis
    using powr_real_of_int' [of 2 k] powr_real_of_int' [of 2 "k + 1"]
    by (simp add: expo_def)
qed

lemma round_even_of_int [simp]: "round_even (of_int n) = n"
  by (simp add: round_even_def)

lemma round_even_error: "\<bar>of_int (round_even x) - x\<bar> \<le> 1 / 2"
  unfolding round_even_def by (auto; linarith)

lemma round_even_bounds: "\<lfloor>x\<rfloor> \<le> round_even x" "round_even x \<le> \<lceil>x\<rceil>"
  unfolding round_even_def by (auto simp: ceiling_altdef; linarith)+

lemma round_even_ge: "of_int n \<le> x \<Longrightarrow> n \<le> round_even x"
  using round_even_bounds(1) [of x] le_floor_iff [of n x] by linarith

lemma round_even_le: "x \<le> of_int n \<Longrightarrow> round_even x \<le> n"
  using round_even_bounds(2) [of x] ceiling_le_iff [of x n] by linarith

lemma round_even_mono: "x \<le> y \<Longrightarrow> round_even x \<le> round_even y"
proof (cases "\<lfloor>x\<rfloor> = \<lfloor>y\<rfloor>")
  case True
  assume "x \<le> y"
  with True show ?thesis unfolding round_even_def by (auto; linarith)
next
  case False
  assume "x \<le> y"
  with False have "\<lfloor>x\<rfloor> + 1 \<le> \<lfloor>y\<rfloor>" using floor_mono [of x y] by linarith
  moreover have "round_even x \<le> \<lfloor>x\<rfloor> + 1" unfolding round_even_def by auto
  ultimately show ?thesis using round_even_bounds(1) [of y] by linarith
qed

lemma round_even_minus: "round_even (- x) = - round_even x"
proof (cases "x = of_int \<lfloor>x\<rfloor>")
  case True
  then obtain n where "x = of_int n" ..
  then show ?thesis by (simp flip: of_int_minus)
next
  case False
  then have c: "\<lfloor>- x\<rfloor> = - \<lfloor>x\<rfloor> - 1"
    by (metis ceiling_altdef ceiling_def minus_diff_eq diff_minus_eq_add minus_add_distrib
        uminus_add_conv_diff add.inverse_inverse)
  show ?thesis unfolding round_even_def c by (auto; linarith?)
qed

text \<open>The multiple of \<open>u\<close> nearest to \<open>x\<close>.\<close>

lemma grid_error:
  assumes "0 < u"
  shows "\<bar>of_int (round_even (x / u)) * u - x\<bar> \<le> u / 2"
proof -
  from round_even_error [of "x / u"] assms
  have "\<bar>of_int (round_even (x / u)) - x / u\<bar> * u \<le> 1 / 2 * u"
    by (intro mult_right_mono) simp_all
  moreover have "(of_int (round_even (x / u)) - x / u) * u = of_int (round_even (x / u)) * u - x"
    using assms by (simp add: field_simps)
  moreover have "\<bar>of_int (round_even (x / u)) - x / u\<bar> * u = \<bar>(of_int (round_even (x / u)) - x / u) * u\<bar>"
    using assms by (simp add: abs_mult)
  ultimately show ?thesis by simp
qed

lemma grid_ge:
  assumes "0 < u" "of_int n * u \<le> x"
  shows "of_int n * u \<le> of_int (round_even (x / u)) * u"
proof -
  from assms have "of_int n \<le> x / u" by (simp add: pos_le_divide_eq)
  then have "n \<le> round_even (x / u)" by (rule round_even_ge)
  with assms(1) show ?thesis by simp
qed

lemma grid_le:
  assumes "0 < u" "x \<le> of_int n * u"
  shows "of_int (round_even (x / u)) * u \<le> of_int n * u"
proof -
  from assms have "x / u \<le> of_int n" by (simp add: pos_divide_le_eq)
  then have "round_even (x / u) \<le> n" by (rule round_even_le)
  with assms(1) show ?thesis by simp
qed

lemma ulp_pos [simp]: "0 < ulp p emin x"
  by (simp add: ulp_def)

lemma nearest_0 [simp]: "nearest p emin 0 = 0"
  by (simp add: nearest_def)

lemma nearest_minus: "nearest p emin (- x) = - nearest p emin x"
  by (simp add: nearest_def ulp_def expo_def round_even_minus)

lemma nearest_error: "\<bar>nearest p emin x - x\<bar> \<le> ulp p emin x / 2"
  using grid_error [of "ulp p emin x" x] ulp_pos [of p emin 0]
  by (auto simp: nearest_def intro: less_imp_le)

text \<open>Numbers on the grid of \<open>x\<close> that bound \<open>x\<close> bound what \<open>x\<close> is rounded to.\<close>

lemma nearest_ge:
  assumes "of_int n * ulp p emin x \<le> x"
  shows "of_int n * ulp p emin x \<le> nearest p emin x"
proof (cases "x = 0")
  case True
  with assms show ?thesis by simp
next
  case False
  with grid_ge [OF ulp_pos assms] show ?thesis by (simp add: nearest_def)
qed

lemma nearest_le:
  assumes "x \<le> of_int n * ulp p emin x"
  shows "nearest p emin x \<le> of_int n * ulp p emin x"
proof (cases "x = 0")
  case True
  with assms show ?thesis by simp
next
  case False
  with grid_le [OF ulp_pos assms] show ?thesis by (simp add: nearest_def)
qed

lemma power_int_on_grid:
  assumes "j \<le> k"
  shows "(2::real) powi k = of_int (2 ^ nat (k - j)) * 2 powi j"
proof -
  have "(2::real) powi k = 2 powi (k - j) * 2 powi j"
    by (simp flip: power_int_add)
  also have "(2::real) powi (k - j) = 2 ^ nat (k - j)"
    using assms by (simp add: power_int_def)
  finally show ?thesis by simp
qed

lemma expo_ge:
  assumes "2 powi k \<le> \<bar>x\<bar>"
  shows "k \<le> expo x"
proof (rule ccontr)
  assume "\<not> k \<le> expo x"
  then have "expo x + 1 \<le> k" by simp
  then have "(2::real) powi (expo x + 1) \<le> 2 powi k"
    by (intro power_int_increasing) simp_all
  moreover have "0 < \<bar>x\<bar>" using assms zero_less_power_int [of "2::real" k] by linarith
  then have "x \<noteq> 0" by simp
  ultimately show False using expo_bounds(2) [of x] assms by linarith
qed

lemma expo_less:
  assumes "x \<noteq> 0" "\<bar>x\<bar> < 2 powi k"
  shows "expo x < k"
proof (rule ccontr)
  assume "\<not> expo x < k"
  then have "(2::real) powi k \<le> 2 powi expo x"
    by (intro power_int_increasing) simp_all
  with expo_bounds(1) [OF assms(1)] assms(2) show False by linarith
qed

text \<open>A power of two below \<open>x\<close> is below what \<open>x\<close> is rounded to, and the same above.\<close>

lemma nearest_ge_power:
  assumes "2 powi k \<le> x" and "emin - (int p - 1) \<le> k" and "0 < p"
  shows "2 powi k \<le> nearest p emin x"
proof -
  have x: "0 < x" using assms(1) zero_less_power_int [of "2::real" k] by linarith
  then have ax: "\<bar>x\<bar> = x" by simp
  from assms(1) have ke: "k \<le> expo x" by (intro expo_ge) (simp add: ax)
  define j where "j = max (expo x) emin - (int p - 1)"
  have u: "ulp p emin x = 2 powi j" by (simp add: ulp_def j_def)
  show ?thesis
  proof (cases "emin \<le> expo x")
    case True
    then have "j \<le> expo x" using assms(3) by (simp add: j_def)
    from power_int_on_grid [OF this]
    have g: "(2::real) powi expo x = of_int (2 ^ nat (expo x - j)) * ulp p emin x"
      by (simp add: u)
    have "(2::real) powi expo x \<le> x" using expo_bounds(1) [of x] x by simp
    then have "of_int (2 ^ nat (expo x - j)) * ulp p emin x \<le> x" by (simp only: g)
    then have "of_int (2 ^ nat (expo x - j)) * ulp p emin x \<le> nearest p emin x"
      by (rule nearest_ge)
    moreover have "(2::real) powi k \<le> 2 powi expo x"
      using ke by (intro power_int_increasing) simp_all
    ultimately show ?thesis using g by linarith
  next
    case False
    then have "j \<le> k" using assms(2) by (simp add: j_def)
    from power_int_on_grid [OF this]
    have g: "(2::real) powi k = of_int (2 ^ nat (k - j)) * ulp p emin x"
      by (simp add: u)
    from assms(1) have "of_int (2 ^ nat (k - j)) * ulp p emin x \<le> x" by (simp only: g)
    then have "of_int (2 ^ nat (k - j)) * ulp p emin x \<le> nearest p emin x"
      by (rule nearest_ge)
    then show ?thesis by (simp only: g)
  qed
qed

lemma nearest_le_power:
  assumes "x \<le> 2 powi k" and "emin - (int p - 1) \<le> k" and "0 < p"
  shows "nearest p emin x \<le> 2 powi k"
proof (cases "0 < x")
  case False
  then have "x \<le> of_int 0 * ulp p emin x" by simp
  then have "nearest p emin x \<le> of_int 0 * ulp p emin x" by (rule nearest_le)
  then have "nearest p emin x \<le> 0" by simp
  with zero_less_power_int [of "2::real" k] show ?thesis by linarith
next
  case True
  define j where "j = max (expo x) emin - (int p - 1)"
  have u: "ulp p emin x = 2 powi j" by (simp add: ulp_def j_def)
  have "(2::real) powi k < 2 powi (k + 1)"
    by (intro power_int_strict_increasing) simp_all
  with assms(1) True have "expo x < k + 1" by (intro expo_less) simp_all
  with assms(2,3) have "j \<le> k" by (simp add: j_def)
  from power_int_on_grid [OF this]
  have g: "(2::real) powi k = of_int (2 ^ nat (k - j)) * ulp p emin x"
    by (simp add: u)
  from assms(1) have "x \<le> of_int (2 ^ nat (k - j)) * ulp p emin x" by (simp only: g)
  then have "nearest p emin x \<le> of_int (2 ^ nat (k - j)) * ulp p emin x"
    by (rule nearest_le)
  then show ?thesis by (simp only: g)
qed

lemma nearest_on_grid:
  assumes "x = of_int n * ulp p emin x"
  shows "nearest p emin x = x"
proof -
  from assms have "of_int n * ulp p emin x \<le> x" "x \<le> of_int n * ulp p emin x" by simp_all
  from nearest_ge [OF this(1)] nearest_le [OF this(2)] assms show ?thesis by simp
qed

lemma nearest_exact:
  assumes "\<bar>n\<bar> < 2 ^ p" and "emin - (int p - 1) \<le> e" and "0 < p"
  shows "nearest p emin (of_int n * 2 powi e) = of_int n * 2 powi e"
proof (cases "n = 0")
  case True
  then show ?thesis by simp
next
  case False
  define x :: real where "x = of_int n * 2 powi e"
  define j where "j = max (expo x) emin - (int p - 1)"
  have u: "ulp p emin x = 2 powi j" by (simp add: ulp_def j_def)
  have nz: "x \<noteq> 0" using False by (simp add: x_def)
  have "\<bar>x\<bar> = of_int \<bar>n\<bar> * 2 powi e" by (simp add: x_def abs_mult)
  also have "\<dots> < of_int (2 ^ p) * 2 powi e"
  proof (intro mult_strict_right_mono)
    show "real_of_int \<bar>n\<bar> < real_of_int (2 ^ p)" using assms(1) by (simp only: of_int_less_iff)
  qed simp
  also have "\<dots> = 2 powi (int p + e)" by (simp add: power_int_add)
  finally have "expo x < int p + e" using nz by (intro expo_less)
  with assms(2) have "j \<le> e" by (simp add: j_def)
  from power_int_on_grid [OF this]
  have pe: "(2::real) powi e = of_int (2 ^ nat (e - j)) * 2 powi j" .
  have "x = of_int n * (of_int (2 ^ nat (e - j)) * 2 powi j)"
    by (simp only: x_def pe)
  also have "\<dots> = of_int (n * 2 ^ nat (e - j)) * ulp p emin x"
    by (simp only: u of_int_mult mult.assoc)
  finally have "nearest p emin x = x" by (rule nearest_on_grid)
  then show ?thesis by (simp add: x_def)
qed

lemma nearest_rel_error:
  assumes "x \<noteq> 0" and "emin \<le> expo x"
  shows "\<bar>nearest p emin x - x\<bar> \<le> 2 powi (- int p) * \<bar>x\<bar>"
proof -
  have m: "max (expo x) emin = expo x" using assms(2) by simp
  have "ulp p emin x = 2 powi (expo x + (- int p) + 1)"
    unfolding ulp_def m by (rule arg_cong [where f = "\<lambda>k. 2 powi k"]) simp
  also have "\<dots> = 2 powi (expo x + (- int p)) * 2 powi 1"
    by (rule power_int_add) simp
  also have "(2::real) powi (expo x + (- int p)) = 2 powi expo x * 2 powi (- int p)"
    by (rule power_int_add) simp
  finally have "ulp p emin x / 2 = 2 powi (- int p) * 2 powi expo x" by simp
  also have "\<dots> \<le> 2 powi (- int p) * \<bar>x\<bar>"
    using expo_bounds(1) [OF assms(1)] by (intro mult_left_mono) simp_all
  finally show ?thesis using nearest_error [of p emin x] by linarith
qed

text \<open>The greatest number of a format below 1.\<close>

lemma nearest_below_one:
  assumes "nearest p emin q < 1" and "emin \<le> - 1" and "0 < p"
  shows "nearest p emin q \<le> 1 - 2 powi (- int p)"
proof -
  have half: "(2::real) powi (- 1) = 1 / 2" by (simp add: power_int_minus)
  have small: "(2::real) powi (- int p) \<le> 1 / 2"
    using power_int_increasing [of "- int p" "- 1" "2::real"] assms(3) by (simp add: half)
  have k1: "emin - (int p - 1) \<le> - 1" using assms(2,3) by simp
  consider "q \<le> 1 / 2" | "1 / 2 < q" "q < 1" | "1 \<le> q" by linarith
  then show ?thesis
  proof cases
    case 1
    then have "q \<le> 2 powi (- 1)" by (simp add: half)
    from nearest_le_power [OF this k1 assms(3)] small show ?thesis by (simp add: half)
  next
    case 3
    then have "2 powi 0 \<le> q" by simp
    from nearest_ge_power [OF this _ assms(3)] assms(2,3) have "1 \<le> nearest p emin q" by simp
    with assms(1) show ?thesis by simp
  next
    case 2
    then have "expo q = - 1" by (intro expo_eqI) (simp_all add: half)
    then have u: "ulp p emin q = 2 powi (- int p)"
      using assms(2) by (simp add: ulp_def max_def)
    define n where "n = round_even (q / ulp p emin q)"
    have y: "nearest p emin q = of_int n * 2 powi (- int p)"
      using 2 by (simp add: nearest_def n_def u)
    have p2: "(2::real) powi (- int p) * 2 ^ p = 1"
      by (simp add: power_int_minus)
    from assms(1) have "real_of_int n * 2 powi (- int p) * 2 ^ p < 1 * 2 ^ p"
      unfolding y by (intro mult_strict_right_mono) simp_all
    then have "real_of_int n < 2 ^ p" using p2 by (simp add: mult.assoc)
    then have "real_of_int n < real_of_int (2 ^ p)" by simp
    then have "n < 2 ^ p" by (simp only: of_int_less_iff)
    then have "n \<le> 2 ^ p - 1" by simp
    then have "real_of_int n \<le> real_of_int (2 ^ p - 1)" by (simp only: of_int_le_iff)
    then have "real_of_int n \<le> 2 ^ p - 1" by simp
    then have "real_of_int n * 2 powi (- int p) \<le> (2 ^ p - 1) * 2 powi (- int p)"
      by (intro mult_right_mono) simp_all
    also have "\<dots> = 1 - 2 powi (- int p)"
      using p2 by (simp add: left_diff_distrib mult.commute)
    finally show ?thesis by (simp add: y)
  qed
qed

text \<open>The least positive number of a format.\<close>

lemma is_float_least:
  assumes "nearest p emin x = x" and "0 < x"
  shows "2 powi (emin - (int p - 1)) \<le> x"
proof -
  define n where "n = round_even (x / ulp p emin x)"
  from assms have x: "x = of_int n * ulp p emin x"
    by (simp add: nearest_def n_def split: if_splits)
  with assms(2) have "0 < of_int n * ulp p emin x" by simp
  from this ulp_pos have "0 < real_of_int n" by (rule zero_less_mult_pos2)
  then have "1 \<le> real_of_int n" by simp
  then have "1 * ulp p emin x \<le> of_int n * ulp p emin x"
    by (intro mult_right_mono less_imp_le [OF ulp_pos])
  moreover have "2 powi (emin - (int p - 1)) \<le> ulp p emin x"
    unfolding ulp_def by (intro power_int_increasing) simp_all
  ultimately show ?thesis using x by linarith
qed

lemma nearest_at:
  assumes "2 powi k \<le> \<bar>x\<bar>" and "\<bar>x\<bar> < 2 powi (k + 1)"
  shows "nearest p emin x =
    of_int (round_even (x / 2 powi (max k emin - (int p - 1)))) * 2 powi (max k emin - (int p - 1))"
proof -
  from assms have e: "expo x = k" by (rule expo_eqI)
  have "0 < \<bar>x\<bar>" using assms(1) zero_less_power_int [of "2::real" k] by linarith
  then have "x \<noteq> 0" by simp
  then show ?thesis by (simp add: nearest_def ulp_def e)
qed

lemma round_even_abs_le:
  assumes "\<bar>x\<bar> \<le> of_int n"
  shows "\<bar>round_even x\<bar> \<le> n"
proof -
  from assms have "x \<le> of_int n" "of_int (- n) \<le> x" by simp_all
  from round_even_le [OF this(1)] round_even_ge [OF this(2)] show ?thesis by simp
qed

lemma nearest_idem:
  assumes "0 < p"
  shows "nearest p emin (nearest p emin x) = nearest p emin x"
proof (cases "x = 0")
  case True
  then show ?thesis by simp
next
  case False
  define j where "j = max (expo x) emin - (int p - 1)"
  define n where "n = round_even (x / 2 powi j)"
  have u: "ulp p emin x = 2 powi j" by (simp add: ulp_def j_def)
  have y: "nearest p emin x = of_int n * 2 powi j"
    using False by (simp add: nearest_def u n_def)
  have je: "emin - (int p - 1) \<le> j" by (simp add: j_def)
  have "expo x + 1 \<le> int p + j" by (simp add: j_def)
  then have "(2::real) powi (expo x + 1) \<le> 2 powi (int p + j)"
    by (intro power_int_increasing) simp_all
  with expo_bounds(2) [OF False] have "\<bar>x\<bar> < 2 powi (int p + j)" by linarith
  also have "\<dots> = 2 ^ p * 2 powi j" by (simp add: power_int_add)
  finally have "\<bar>x\<bar> / 2 powi j < 2 ^ p" by (simp add: pos_divide_less_eq)
  then have "\<bar>x / 2 powi j\<bar> \<le> real_of_int (2 ^ p)" by simp
  then have "\<bar>n\<bar> \<le> 2 ^ p" unfolding n_def by (rule round_even_abs_le)
  then consider "\<bar>n\<bar> < 2 ^ p" | "n = 2 ^ p" | "n = - (2 ^ p)" by linarith
  then show ?thesis
  proof cases
    case 1
    from nearest_exact [OF this je assms] show ?thesis by (simp add: y)
  next
    case 2
    have "(1::int) < 2 ^ p" using assms by (simp add: one_less_power)
    then have "\<bar>1::int\<bar> < 2 ^ p" by simp
    from nearest_exact [OF this, of emin "int p + j"] je assms
    have "nearest p emin (2 powi (int p + j)) = 2 powi (int p + j)" by simp
    moreover have "nearest p emin x = 2 powi (int p + j)"
      by (simp add: y 2 power_int_add)
    ultimately show ?thesis by simp
  next
    case 3
    have "(1::int) < 2 ^ p" using assms by (simp add: one_less_power)
    then have "\<bar>1::int\<bar> < 2 ^ p" by simp
    from nearest_exact [OF this, of emin "int p + j"] je assms
    have "nearest p emin (2 powi (int p + j)) = 2 powi (int p + j)" by simp
    then have "nearest p emin (- (2 powi (int p + j))) = - (2 powi (int p + j))"
      by (simp add: nearest_minus)
    moreover have "nearest p emin x = - (2 powi (int p + j))"
      by (simp add: y 3 power_int_add)
    ultimately show ?thesis by simp
  qed
qed

lemma largest_ge_one:
  assumes "0 < p" "0 \<le> emax"
  shows "1 \<le> largest p emax"
proof -
  have "(2::real) powi (1 - int p) \<le> 2 powi 0"
    using assms(1) by (intro power_int_increasing) simp_all
  then have a: "1 \<le> 2 - (2::real) powi (1 - int p)" by simp
  have "(2::real) powi 0 \<le> 2 powi emax"
    using assms(2) by (intro power_int_increasing) simp_all
  then have b: "1 \<le> (2::real) powi emax" by simp
  from a b have "1 * 1 \<le> (2 - (2::real) powi (1 - int p)) * 2 powi emax"
    by (intro mult_mono) simp_all
  then show ?thesis by (simp add: largest_def)
qed

lemma rounded_Finite:
  "rounded p emin emax x = Finite y \<longleftrightarrow> y = nearest p emin x \<and> \<bar>y\<bar> \<le> largest p emax"
  by (auto simp: rounded_def)

lemma rounded_in_range:
  "\<bar>nearest p emin x\<bar> \<le> largest p emax \<Longrightarrow> rounded p emin emax x = Finite (nearest p emin x)"
  by (simp add: rounded_def)

lemma nearest_nonpos:
  assumes "x \<le> 0"
  shows "nearest p emin x \<le> 0"
proof -
  from assms have "x \<le> of_int 0 * ulp p emin x" by simp
  then have "nearest p emin x \<le> of_int 0 * ulp p emin x" by (rule nearest_le)
  then show ?thesis by simp
qed

lemma nearest_nonneg:
  assumes "0 \<le> x"
  shows "0 \<le> nearest p emin x"
proof -
  from assms have "of_int 0 * ulp p emin x \<le> x" by simp
  then have "of_int 0 * ulp p emin x \<le> nearest p emin x" by (rule nearest_ge)
  then show ?thesis by simp
qed

lemma float_of_int_bounds:
  "1 \<le> n \<Longrightarrow> 1 \<le> float_of_int n"
  "n \<le> 2147483647 \<Longrightarrow> float_of_int n \<le> 2147483648"
  "n \<le> 0 \<Longrightarrow> float_of_int n \<le> 0"
proof -
  assume "1 \<le> n"
  then have "2 powi 0 \<le> real_of_int n" by simp
  from nearest_ge_power [OF this, of "- 126" 24] show "1 \<le> float_of_int n"
    by (simp add: float_of_int_def to_float_def)
next
  assume "n \<le> 2147483647"
  then have "real_of_int n \<le> 2 powi 31" by simp
  from nearest_le_power [OF this, of "- 126" 24] show "float_of_int n \<le> 2147483648"
    by (simp add: float_of_int_def to_float_def)
next
  assume "n \<le> 0"
  then have "real_of_int n \<le> 0" by simp
  then show "float_of_int n \<le> 0" unfolding float_of_int_def to_float_def by (rule nearest_nonpos)
qed

text \<open>A draw that is positive is at least \<open>2^-31\<close>, and one below 1 is at most \<open>1 - 2^-24\<close>.\<close>

lemma uniform_bounds:
  assumes "0 < rm" "rm \<le> 2147483647" "uniform rm r = Finite u"
  shows "0 < u \<Longrightarrow> 2 powi (- 31) \<le> u" "u < 1 \<Longrightarrow> u \<le> 1 - 2 powi (- 24)"
proof -
  from assms(1) have m1: "1 \<le> float_of_int rm" by (intro float_of_int_bounds) simp
  from assms(2) have m2: "float_of_int rm \<le> 2147483648" by (rule float_of_int_bounds)
  from m1 assms(3) have u: "u = nearest 24 (- 126) (float_of_int r / float_of_int rm)"
    by (auto simp: uniform_def float32_def rounded_Finite)
  {
    assume "0 < u"
    have "0 < r"
    proof (rule ccontr)
      assume "\<not> 0 < r"
      then have "float_of_int r \<le> 0" by (intro float_of_int_bounds) simp
      with m1 have "float_of_int r / float_of_int rm \<le> 0"
        by (simp add: divide_le_0_iff)
      then have "u \<le> 0" unfolding u by (rule nearest_nonpos)
      with \<open>0 < u\<close> show False by simp
    qed
    then have r1: "1 \<le> float_of_int r" by (intro float_of_int_bounds) simp
    have "1 / 2147483648 \<le> float_of_int r / float_of_int rm"
      using r1 m1 m2 by (intro frac_le) simp_all
    then have "2 powi (- 31) \<le> float_of_int r / float_of_int rm"
      by (simp add: power_int_minus)
    from nearest_ge_power [OF this, of "- 126" 24] show "2 powi (- 31) \<le> u"
      by (simp add: u)
  }
  {
    assume "u < 1"
    then have "nearest 24 (- 126) (float_of_int r / float_of_int rm) < 1" by (simp add: u)
    from nearest_below_one [OF this] show "u \<le> 1 - 2 powi (- 24)" by (simp add: u)
  }
qed

lemma ulp_below_one:
  assumes "x \<noteq> 0" "\<bar>x\<bar> < 1" "emin \<le> - 1"
  shows "ulp p emin x \<le> 2 powi (- int p)"
proof -
  from assms(1,2) have "expo x < 0" by (intro expo_less) simp_all
  with assms(3) have "max (expo x) emin - (int p - 1) \<le> - int p" by simp
  then show ?thesis unfolding ulp_def by (intro power_int_increasing) simp_all
qed

text \<open>\<open>temp\<close>, for a draw from \<open>2^-31\<close> to \<open>1 - 2^-24\<close>.\<close>

lemma temp_bounds:
  assumes "2 powi (- 31) \<le> u" "u \<le> 1 - 2 powi (- 24)"
  shows "float64_sub (Finite 1) (Finite u) = Finite (nearest 53 (- 1022) (1 - u))"
    and "2 powi (- 24) \<le> nearest 53 (- 1022) (1 - u)"
    and "nearest 53 (- 1022) (1 - u) \<le> 1 - 2 powi (- 32)"
    and "is_float64 (nearest 53 (- 1022) (1 - u))"
proof -
  let ?y = "nearest 53 (- 1022) (1 - u)"
  from assms(2) have "2 powi (- 24) \<le> 1 - u" by simp
  from nearest_ge_power [OF this, of "- 1022" 53] show lo: "2 powi (- 24) \<le> ?y" by simp
  have p24: "(0::real) < 2 powi (- 24)" by simp
  have p31: "(0::real) < 2 powi (- 31)" by simp
  from assms(2) p24 have u1: "u < 1" by linarith
  from assms(1) p31 have u0: "0 < u" by linarith
  have nz: "1 - u \<noteq> 0" "\<bar>1 - u\<bar> < 1" using u0 u1 by simp_all
  from ulp_below_one [OF nz, of "- 1022" 53] have "ulp 53 (- 1022) (1 - u) \<le> 2 powi (- 53)"
    by simp
  with nearest_error [of 53 "- 1022" "1 - u"] have "?y \<le> 1 - u + 2 powi (- 53) / 2"
    by linarith
  also have "\<dots> \<le> 1 - 2 powi (- 31) + 2 powi (- 53) / 2" using assms(1) by simp
  also have "\<dots> \<le> 1 - 2 powi (- 32)" by (simp add: power_int_minus)
  finally show hi: "?y \<le> 1 - 2 powi (- 32)" .
  have "(0::real) < 2 powi (- 32)" by simp
  with hi lo p24 have "\<bar>?y\<bar> \<le> 1" by linarith
  with largest_ge_one [of 53 1023] have r: "\<bar>?y\<bar> \<le> largest 53 1023" by simp
  then show "float64_sub (Finite 1) (Finite u) = Finite ?y"
    by (simp add: float64_sub_def float64_def rounded_def)
  from r show "is_float64 ?y"
    by (simp add: is_float64_def float64_def rounded_def nearest_idem)
qed

text \<open>A logarithm that is accurate is well below zero at \<open>temp\<close>.\<close>

lemma log_below:
  assumes "log_ok lg" "is_float64 y" "0 < y" "y \<le> 1 - 2 powi (- 32)"
  shows "lg y \<le> - (2 powi (- 33))"
proof -
  have "(0::real) < 2 powi (- 32)" by simp
  with assms(4) have y1: "y < 1" by linarith
  with assms have e: "\<bar>lg y - ln y\<bar> \<le> 2 powi (- 51) * \<bar>ln y\<bar>"
    by (simp add: log_ok_def)
  from ln_le_minus_one [OF assms(3)] assms(4) have l: "ln y \<le> - (2 powi (- 32))" by linarith
  then have neg: "ln y < 0" using \<open>(0::real) < 2 powi (- 32)\<close> by linarith
  have "(2::real) powi (- 52) \<le> 1 / 2" by (simp add: power_int_minus)
  then have "2 powi (- 51) * \<bar>ln y\<bar> \<le> 1 / 2 * \<bar>ln y\<bar>"
    by (intro mult_right_mono) simp_all
  with e neg have "lg y \<le> ln y / 2" by linarith
  also have "\<dots> \<le> - (2 powi (- 32)) / 2" using l by simp
  also have "\<dots> = - (2 powi (- 33))" by (simp add: power_int_minus)
  finally show ?thesis .
qed

lemma is_float32_least:
  assumes "is_float32 x" "0 < x"
  shows "2 powi (- 149) \<le> x"
proof -
  from assms(1) have "nearest 24 (- 126) x = x"
    by (simp add: is_float32_def float32_def rounded_Finite)
  from is_float_least [OF this assms(2)] show ?thesis by simp
qed

text \<open>The value of \<open>ceil(-time * log(temp))\<close> for a positive mean and a draw above 0 and
  below 1.\<close>

lemma variate_positive:
  assumes "is_float32 time" "0 < time"
    and "0 < rm" "rm \<le> 2147483647" "uniform rm r = Finite u" "0 < u" "u < 1"
    and "log_ok lg"
    and "variate lg time (Finite u) = Finite v"
  shows "v = of_int \<lceil>nearest 53 (- 1022)
                (- nearest 24 (- 126) (time * 100) * lg (nearest 53 (- 1022) (1 - u)))\<rceil>"
    and "1 \<le> v"
proof -
  let ?t = "nearest 24 (- 126) (time * 100)"
  let ?y = "nearest 53 (- 1022) (1 - u)"
  let ?x = "- ?t * lg ?y"
  note ub = uniform_bounds [OF assms(3,4,5)]
  note tb = temp_bounds [OF ub(1) [OF assms(6)] ub(2) [OF assms(7)]]
  have y0: "0 < ?y" using tb(2) zero_less_power_int [of "2::real" "- 24"] by linarith
  have y1: "?y \<noteq> 1" using tb(3) zero_less_power_int [of "2::real" "- 32"] by linarith
  have lgy: "log_double lg (Finite ?y) = Finite (lg ?y)"
    using y0 y1 by (simp add: log_double_def)
  note L = log_below [OF assms(8) tb(4) y0 tb(3)]
  from assms(9) obtain t where t: "float32 (time * 100) = Finite t"
    by (cases "float32 (time * 100)")
      (simp_all add: variate_def float_neg_def float64_mul_def float_ceil_def)
  then have tt: "t = ?t" by (simp add: float32_def rounded_Finite)
  from assms(9) obtain z where z: "float64 ?x = Finite z" and vz: "v = of_int \<lceil>z\<rceil>"
    by (cases "float64 ?x")
      (simp_all add: variate_def t tt tb(1) lgy float_neg_def float64_mul_def float_ceil_def)
  then have zz: "z = nearest 53 (- 1022) ?x" by (simp add: float64_def rounded_Finite)
  show "v = of_int \<lceil>nearest 53 (- 1022) ?x\<rceil>" by (simp add: vz zz)
  from is_float32_least [OF assms(1,2)] have "2 powi (- 149) * 64 \<le> time * 100"
    by (intro mult_mono) simp_all
  then have "2 powi (- 143) \<le> time * 100" by (simp add: power_int_minus)
  from nearest_ge_power [OF this, of "- 126" 24] have t143: "2 powi (- 143) \<le> ?t" by simp
  have "2 powi (- 143) * 2 powi (- 33) \<le> ?t * (- lg ?y)"
    using t143 L by (intro mult_mono) simp_all
  moreover have "(2::real) powi (- 143) * 2 powi (- 33) = 2 powi (- 176)"
    by (simp flip: power_int_add)
  ultimately have "2 powi (- 176) \<le> ?x" by simp
  from nearest_ge_power [OF this, of "- 1022" 53] have "2 powi (- 176) \<le> z" by (simp add: zz)
  then have "0 < z" using zero_less_power_int [of "2::real" "- 176"] by linarith
  then have "1 \<le> \<lceil>z\<rceil>" by simp
  then show "1 \<le> v" by (simp add: vz)
qed

text \<open>A logarithm rounded correctly is accurate.\<close>

lemma rounded_ln_ok: "log_ok rounded_ln"
  unfolding log_ok_def rounded_ln_def to_double_def
proof (intro allI impI)
  fix x :: real
  assume h: "is_float64 x \<and> 0 < x \<and> x < 1"
  then have "nearest 53 (- 1022) x < 1"
    by (simp add: is_float64_def float64_def rounded_Finite)
  from nearest_below_one [OF this] h have "x \<le> 1 - 2 powi (- 53)"
    by (simp add: is_float64_def float64_def rounded_Finite)
  with ln_le_minus_one [of x] h have l: "ln x \<le> - (2 powi (- 53))" by simp
  then have "2 powi (- 53) \<le> \<bar>ln x\<bar>" by simp
  then have "- 53 \<le> expo (ln x)" by (rule expo_ge)
  then have e: "- 1022 \<le> expo (ln x)" by simp
  have nz: "ln x \<noteq> 0" using l zero_less_power_int [of "2::real" "- 53"] by linarith
  from nearest_rel_error [OF nz e, of 53]
  have "\<bar>nearest 53 (- 1022) (ln x) - ln x\<bar> \<le> 2 powi (- 53) * \<bar>ln x\<bar>" by simp
  also have "\<dots> \<le> 2 powi (- 51) * \<bar>ln x\<bar>"
    by (intro mult_right_mono power_int_increasing) simp_all
  finally show "\<bar>nearest 53 (- 1022) (ln x) - ln x\<bar> \<le> 2 powi (- 51) * \<bar>ln x\<bar>" .
qed

subsection \<open>Values\<close>

lemma largest_ge_power:
  assumes "0 < p"
  shows "2 powi emax \<le> largest p emax"
proof -
  have "(2::real) powi (1 - int p) \<le> 2 powi 0"
    using assms by (intro power_int_increasing) simp_all
  then have "1 \<le> 2 - (2::real) powi (1 - int p)" by simp
  then have "1 * 2 powi emax \<le> (2 - (2::real) powi (1 - int p)) * 2 powi emax"
    by (intro mult_right_mono) simp_all
  then show ?thesis by (simp add: largest_def)
qed

lemma float32_in_range:
  assumes "\<bar>nearest 24 (- 126) x\<bar> \<le> 2 powi 127"
  shows "float32 x = Finite (nearest 24 (- 126) x)"
  using assms largest_ge_power [of 24 127] by (simp add: float32_def rounded_def)

lemma float64_in_range:
  assumes "\<bar>nearest 53 (- 1022) x\<bar> \<le> 2 powi 1023"
  shows "float64 x = Finite (nearest 53 (- 1022) x)"
  using assms largest_ge_power [of 53 1023] by (simp add: float64_def rounded_def)

text \<open>An integer below \<open>2^24\<close> is a float.\<close>

lemma to_float_int:
  assumes "\<bar>n\<bar> < 2 ^ 24"
  shows "nearest 24 (- 126) (of_int n) = of_int n"
  using nearest_exact [OF assms, of "- 126" 0] by simp

lemma float_of_int_small:
  assumes "\<bar>n\<bar> < 2 ^ 24"
  shows "float_of_int n = of_int n"
  using to_float_int [OF assms] by (simp add: float_of_int_def to_float_def)

lemma float32_int:
  assumes "\<bar>n\<bar> < 2 ^ 24"
  shows "float32 (of_int n) = Finite (of_int n)"
proof -
  have "real_of_int \<bar>n\<bar> < real_of_int (2 ^ 24)" using assms by (simp only: of_int_less_iff)
  then have "\<bar>real_of_int n\<bar> \<le> 2 powi 127" by simp
  then show ?thesis using float32_in_range [of "of_int n"] by (simp add: to_float_int [OF assms])
qed

lemma float_values:
  "float32 0 = Finite 0" "float32 1 = Finite 1" "float32 100 = Finite 100"
  "float32 300 = Finite 300" "float32 (1 / 2) = Finite (1 / 2)"
  "float64 0 = Finite 0" "float64 1 = Finite 1" "float64 (1 / 2) = Finite (1 / 2)"
proof -
  show "float32 0 = Finite 0" using float32_int [of 0] by simp
  show "float32 1 = Finite 1" using float32_int [of 1] by simp
  show "float32 100 = Finite 100" using float32_int [of 100] by simp
  show "float32 300 = Finite 300" using float32_int [of 300] by simp
  have "nearest 24 (- 126) (1 / 2) = 1 / 2"
    using nearest_exact [of 1 24 "- 126" "- 1"] by (simp add: power_int_minus)
  then show "float32 (1 / 2) = Finite (1 / 2)"
    using float32_in_range [of "1 / 2"] by simp
  show "float64 0 = Finite 0" using float64_in_range [of 0] by simp
  have "nearest 53 (- 1022) 1 = 1"
    using nearest_exact [of 1 53 "- 1022" 0] by simp
  then show "float64 1 = Finite 1" using float64_in_range [of 1] by simp
  have "nearest 53 (- 1022) (1 / 2) = 1 / 2"
    using nearest_exact [of 1 53 "- 1022" "- 1"] by (simp add: power_int_minus)
  then show "float64 (1 / 2) = Finite (1 / 2)"
    using float64_in_range [of "1 / 2"] by simp
qed

text \<open>\<open>RAND_MAX = 2^31 - 1\<close> is not a float: the conversion gives \<open>2^31\<close>, and gives it for
  the 64 integers from \<open>2^31 - 64\<close> on.\<close>

lemma float_of_int_near_RAND_MAX:
  assumes "2147483584 \<le> r" "r \<le> 2147483647"
  shows "float_of_int r = 2147483648"
proof -
  let ?x = "real_of_int r"
  have b: "2147483584 \<le> ?x" "?x \<le> 2147483647" using assms by simp_all
  then have "2 powi 30 \<le> \<bar>?x\<bar>" "\<bar>?x\<bar> < 2 powi (30 + 1)" by simp_all
  from nearest_at [OF this, of 24 "- 126"]
  have n: "nearest 24 (- 126) ?x = of_int (round_even (?x / 128)) * 128" by simp
  from b have q: "16777216 - 1 / 2 \<le> ?x / 128" "?x / 128 < 16777216" by simp_all
  then have fl: "\<lfloor>?x / 128\<rfloor> = 16777215" by (simp add: floor_eq_iff)
  have "round_even (?x / 128) = 16777216"
    using q unfolding round_even_def fl by auto
  then show ?thesis by (simp add: float_of_int_def to_float_def n)
qed

lemma float_of_int_half_RAND_MAX: "float_of_int 1073741824 = 1073741824"
  using nearest_exact [of 1 24 "- 126" 30] by (simp add: float_of_int_def to_float_def)

lemma uniform_values:
  "uniform 2147483647 2147483647 = Finite 1"
  "uniform 2147483647 0 = Finite 0"
  "uniform 2147483647 1073741824 = Finite (1 / 2)"
  by (simp_all add: uniform_def float_of_int_near_RAND_MAX float_of_int_half_RAND_MAX
      float_of_int_small float_values)

lemma uniform_near_RAND_MAX:
  assumes "2147483584 \<le> r" "r \<le> 2147483647"
  shows "uniform 2147483647 r = Finite 1"
  using float_of_int_near_RAND_MAX [OF assms] float_of_int_near_RAND_MAX [of 2147483647]
  by (simp add: uniform_def float_values)

lemma uniform_same:
  assumes "0 < rm"
  shows "uniform rm rm = Finite 1"
proof -
  from assms have "1 \<le> float_of_int rm" by (intro float_of_int_bounds) simp
  then show ?thesis by (simp add: uniform_def float_values)
qed

text \<open>The variate at the draws 1 and 0.\<close>

lemma variate_at_one: "variate lg time (Finite 1) = Not_finite"
  by (simp add: variate_def float64_sub_def float_values log_double_def float64_mul_def
      float_ceil_def float_neg_def split: fval.splits)

lemma variate_at_zero:
  assumes "float32 (time * 100) = Finite t"
  shows "variate lg time (Finite 0) = Finite 0"
  using assms
  by (simp add: variate_def float64_sub_def float_values log_double_def float64_mul_def
      float_ceil_def float_neg_def)

lemma long_of_double_values:
  "long_of_double Not_finite = LONG_MIN" "long_of_double (Finite 0) = 0"
  by (simp_all add: long_of_double_def LONG_MIN_def LONG_MAX_def)

text \<open>The sum of a finite float and of a number up to \<open>2^63\<close> is rounded to a finite float.\<close>

lemma round_even_below_half:
  assumes "x < of_int n + 1 / 2"
  shows "round_even x \<le> n"
proof -
  from round_even_error [of x] assms have "real_of_int (round_even x) < of_int n + 1"
    by linarith
  then have "real_of_int (round_even x) < real_of_int (n + 1)" by simp
  then have "round_even x < n + 1" by (simp only: of_int_less_iff)
  then show ?thesis by simp
qed

lemma FLT_MAX_eq: "largest 24 127 = 16777215 * 2 powi 104"
  by (simp add: largest_def power_int_minus)

lemma nearest_le_FLT_MAX:
  assumes "x \<le> largest 24 127 + 2 powi 63"
  shows "nearest 24 (- 126) x \<le> largest 24 127"
proof -
  consider "x \<le> 0" | "0 < x" "x \<le> largest 24 127" | "largest 24 127 < x" by linarith
  then show ?thesis
  proof cases
    case 1
    then have "nearest 24 (- 126) x \<le> 0" by (rule nearest_nonpos)
    moreover have "0 \<le> largest 24 127" by (simp add: FLT_MAX_eq)
    ultimately show ?thesis by linarith
  next
    case 2
    define j where "j = max (expo x) (- 126) - (int 24 - 1)"
    have u: "ulp 24 (- 126) x = 2 powi j" by (simp add: ulp_def j_def)
    from 2 have "\<bar>x\<bar> < 2 powi 128" by (simp add: FLT_MAX_eq)
    with 2(1) have "expo x < 128" by (intro expo_less) simp_all
    then have "j \<le> 104" by (simp add: j_def)
    from power_int_on_grid [OF this]
    have g: "(2::real) powi 104 = of_int (2 ^ nat (104 - j)) * 2 powi j" .
    have "largest 24 127 = 16777215 * (of_int (2 ^ nat (104 - j)) * 2 powi j)"
      by (simp only: FLT_MAX_eq g)
    also have "\<dots> = of_int (16777215 * 2 ^ nat (104 - j)) * ulp 24 (- 126) x"
      by (simp only: u of_int_mult of_int_numeral mult.assoc)
    finally have "largest 24 127 = of_int (16777215 * 2 ^ nat (104 - j)) * ulp 24 (- 126) x" .
    with 2(2) nearest_le [of x "16777215 * 2 ^ nat (104 - j)" 24 "- 126"]
    show ?thesis by simp
  next
    case 3
    with assms have b: "16777215 * 2 powi 104 < x" "x \<le> 16777215 * 2 powi 104 + 2 powi 63"
      by (simp_all add: FLT_MAX_eq)
    then have "2 powi 127 \<le> \<bar>x\<bar>" "\<bar>x\<bar> < 2 powi (127 + 1)" by simp_all
    from nearest_at [OF this, of 24 "- 126"]
    have n: "nearest 24 (- 126) x = of_int (round_even (x / 2 powi 104)) * 2 powi 104" by simp
    from b(2) have "x / 2 powi 104 \<le> 16777215 + 2 powi 63 / 2 powi 104"
      by (simp add: field_simps)
    also have "\<dots> < of_int 16777215 + 1 / 2" by simp
    finally have "round_even (x / 2 powi 104) \<le> 16777215" by (rule round_even_below_half)
    then have "real_of_int (round_even (x / 2 powi 104)) \<le> 16777215" by simp
    then have "real_of_int (round_even (x / 2 powi 104)) * 2 powi 104 \<le> 16777215 * 2 powi 104"
      by (intro mult_right_mono) simp_all
    then show ?thesis by (simp add: n FLT_MAX_eq)
  qed
qed

lemma float32_add_finite:
  assumes "is_float32 a" "\<bar>t\<bar> \<le> 2 powi 63"
  shows "float32 (a + t) = Finite (float32_add a t)"
proof -
  from assms(1) have a: "\<bar>a\<bar> \<le> largest 24 127"
    by (simp add: is_float32_def float32_def rounded_Finite)
  with assms(2) have "a + t \<le> largest 24 127 + 2 powi 63" "- (a + t) \<le> largest 24 127 + 2 powi 63"
    by linarith+
  note b = this
  from nearest_le_FLT_MAX [OF b(2)] have "- nearest 24 (- 126) (a + t) \<le> largest 24 127"
    by (simp only: nearest_minus)
  with nearest_le_FLT_MAX [OF b(1)] have "\<bar>nearest 24 (- 126) (a + t)\<bar> \<le> largest 24 127"
    by linarith
  then show ?thesis by (simp add: float32_def rounded_def float32_add_def to_float_def)
qed

text \<open>From \<open>2^24\<close> on, adding 1 to a float leaves it as it is.\<close>

lemma float32_add_saturated: "float32_add 16777216 1 = 16777216"
proof -
  have "2 powi 24 \<le> \<bar>16777217::real\<bar>" "\<bar>16777217::real\<bar> < 2 powi (24 + 1)" by simp_all
  from nearest_at [OF this, of 24 "- 126"] show ?thesis
    by (simp add: float32_add_def to_float_def round_even_def)
qed

lemma float32_add_one:
  assumes "0 \<le> n" "n < 16777215"
  shows "float32_add (of_int n) 1 = of_int (n + 1)"
proof -
  from assms have "\<bar>n + 1\<bar> < 2 ^ 24" by simp
  from to_float_int [OF this] show ?thesis
    by (simp add: float32_add_def to_float_def add.commute)
qed

subsection \<open>The logarithm of one half\<close>

lemma ln_half_bounds: "ln (1 / 2 :: real) = - ln 2" "1 / 2 \<le> ln (2::real)" "ln (2::real) \<le> 1"
proof -
  show e: "ln (1 / 2 :: real) = - ln 2" by (simp add: ln_div)
  from ln_le_minus_one [of "1 / 2 :: real"] show "1 / 2 \<le> ln (2::real)" by (simp add: e)
  from ln_le_minus_one [of "2::real"] show "ln (2::real) \<le> 1" by simp
qed

lemma rounded_ln_half:
  "rounded_ln (1 / 2) = - to_double (ln 2)"
  "1 / 2 \<le> to_double (ln 2)" "to_double (ln 2) \<le> 1"
  "to_double (ln 2) \<le> ln 2 + 2 powi (- 53)"
proof -
  show "rounded_ln (1 / 2) = - to_double (ln 2)"
    by (simp add: rounded_ln_def to_double_def ln_half_bounds(1) nearest_minus)
  have "2 powi (- 1) \<le> ln (2::real)" using ln_half_bounds(2) by (simp add: power_int_minus)
  from nearest_ge_power [OF this, of "- 1022" 53] show "1 / 2 \<le> to_double (ln 2)"
    by (simp add: to_double_def power_int_minus)
  have "ln (2::real) \<le> 2 powi 0" using ln_half_bounds(3) by simp
  from nearest_le_power [OF this, of "- 1022" 53] show "to_double (ln 2) \<le> 1"
    by (simp add: to_double_def)
  have "2 powi (- 1) \<le> \<bar>ln (2::real)\<bar>" using ln_half_bounds(2) by (simp add: power_int_minus)
  then have "- 1 \<le> expo (ln 2)" by (rule expo_ge)
  then have e: "- 1022 \<le> expo (ln 2)" by simp
  have nz: "ln (2::real) \<noteq> 0" by simp
  from nearest_rel_error [OF nz e, of 53]
  have "\<bar>to_double (ln 2) - ln 2\<bar> \<le> 2 powi (- 53) * \<bar>ln (2::real)\<bar>"
    by (simp add: to_double_def)
  also have "\<dots> \<le> 2 powi (- 53) * 1"
    using ln_half_bounds(2,3) by (intro mult_left_mono) simp_all
  finally have "\<bar>to_double (ln 2) - ln 2\<bar> \<le> 2 powi (- 53)" by (simp only: mult_1_right)
  then show "to_double (ln 2) \<le> ln 2 + 2 powi (- 53)" by linarith
qed

lemma temp_half:
  "float64_sub (Finite 1) (Finite (1 / 2)) = Finite (1 / 2)"
  "log_double rounded_ln (Finite (1 / 2)) = Finite (- to_double (ln 2))"
  by (simp_all add: float64_sub_def float_values log_double_def rounded_ln_half(1))

text \<open>Mean 1, draw one half.\<close>

lemma variate_example:
  "variate rounded_ln 1 (Finite (1 / 2)) = Finite (of_int \<lceil>to_double (100 * to_double (ln 2))\<rceil>)"
  "\<lceil>to_double (100 * to_double (ln 2))\<rceil> \<le> 128"
proof -
  let ?m = "to_double (ln 2)"
  let ?x = "100 * ?m"
  have "?x \<le> 2 powi 7" using rounded_ln_half(3) by simp
  from nearest_le_power [OF this, of "- 1022" 53] have hi: "to_double ?x \<le> 128"
    by (simp add: to_double_def)
  have "0 \<le> ?x" using rounded_ln_half(2) by simp
  then have lo: "0 \<le> to_double ?x" unfolding to_double_def by (rule nearest_nonneg)
  from hi lo have "\<bar>nearest 53 (- 1022) ?x\<bar> \<le> 2 powi 1023"
    by (simp add: to_double_def)
  from float64_in_range [OF this] have f: "float64 ?x = Finite (to_double ?x)"
    by (simp add: to_double_def)
  show "variate rounded_ln 1 (Finite (1 / 2)) = Finite (of_int \<lceil>to_double ?x\<rceil>)"
    by (simp add: variate_def temp_half float_values float_neg_def float64_mul_def f
        float_ceil_def)
  from hi show "\<lceil>to_double ?x\<rceil> \<le> 128"
    by (simp add: ceiling_le_iff)
qed

text \<open>Mean \<open>2^58\<close>, draw one half: the variate is beyond \<open>long int\<close>.\<close>

lemma variate_too_long:
  "long_of_double (variate rounded_ln 288230376151711744 (Finite (1 / 2))) = LONG_MIN"
proof -
  let ?m = "to_double (ln 2)"
  let ?x = "28823037615171174400 * ?m"
  have "nearest 24 (- 126) 28823037615171174400 = 28823037615171174400"
    using nearest_exact [of 25 24 "- 126" 60] by simp
  then have t: "float32 28823037615171174400 = Finite 28823037615171174400"
    using float32_in_range [of 28823037615171174400] by simp
  have v: "variate rounded_ln 288230376151711744 (Finite (1 / 2)) = float_ceil (float64 ?x)"
    by (simp add: variate_def temp_half t float_neg_def float64_mul_def)
  show ?thesis
  proof (cases "float64 ?x")
    case Not_finite
    then show ?thesis by (simp add: v float_ceil_def long_of_double_def)
  next
    case (Finite z)
    then have z: "z = nearest 53 (- 1022) ?x" by (simp add: float64_def rounded_Finite)
    have "2 powi 63 \<le> ?x" using rounded_ln_half(2) by simp
    from nearest_ge_power [OF this, of "- 1022" 53] have "2 ^ 63 \<le> z" by (simp add: z)
    then have "real_of_int (2 ^ 63) \<le> z" by simp
    then have "2 ^ 63 \<le> \<lceil>z\<rceil>" by (simp only: le_ceiling_iff)
    then show ?thesis
      by (simp add: v Finite float_ceil_def long_of_double_def LONG_MAX_def LONG_MIN_def)
  qed
qed

text \<open>Mean \<open>2^24 - 1\<close>, draw one half: the variate is not what the formula gives over
  the reals.\<close>

lemma variate_rounded:
  "variate rounded_ln 16777215 (Finite (1 / 2))
     = Finite (of_int \<lceil>to_double (1677721472 * to_double (ln 2))\<rceil>)"
  "0 \<le> \<lceil>to_double (1677721472 * to_double (ln 2))\<rceil>"
  "\<lceil>to_double (1677721472 * to_double (ln 2))\<rceil> \<le> 2147483648"
  "\<lceil>to_double (1677721472 * to_double (ln 2))\<rceil> < \<lceil>- (100 * 16777215) * ln (1 - 1 / 2 :: real)\<rceil>"
proof -
  let ?m = "to_double (ln 2)"
  let ?x = "1677721472 * ?m"
  let ?z = "to_double ?x"
  have "2 powi 30 \<le> \<bar>1677721500::real\<bar>" "\<bar>1677721500::real\<bar> < 2 powi (30 + 1)" by simp_all
  from nearest_at [OF this, of 24 "- 126"]
  have "nearest 24 (- 126) 1677721500 = 1677721472"
    by (simp add: round_even_def)
  then have t: "float32 1677721500 = Finite 1677721472"
    using float32_in_range [of 1677721500] by simp
  have x1: "1 \<le> ?x" "?x \<le> 2147483648" using rounded_ln_half(2,3) by simp_all
  from x1(2) have "?x \<le> 2 powi 31" by simp
  from nearest_le_power [OF this, of "- 1022" 53] have hi: "?z \<le> 2147483648"
    by (simp add: to_double_def)
  from x1(1) have lo: "0 \<le> ?z" unfolding to_double_def by (intro nearest_nonneg) simp
  from hi lo have "\<bar>nearest 53 (- 1022) ?x\<bar> \<le> 2 powi 1023"
    by (simp add: to_double_def)
  from float64_in_range [OF this] have f: "float64 ?x = Finite ?z"
    by (simp add: to_double_def)
  show "variate rounded_ln 16777215 (Finite (1 / 2)) = Finite (of_int \<lceil>?z\<rceil>)"
    by (simp add: variate_def temp_half t float_neg_def float64_mul_def f float_ceil_def)
  from lo show "0 \<le> \<lceil>?z\<rceil>" by (simp add: le_ceiling_iff)
  from hi show "\<lceil>?z\<rceil> \<le> 2147483648" by (simp add: ceiling_le_iff)
  have "2 powi 0 \<le> \<bar>?x\<bar>" using x1(1) by simp
  then have "0 \<le> expo ?x" by (rule expo_ge)
  then have e: "- 1022 \<le> expo ?x" by simp
  have nz: "?x \<noteq> 0" using x1(1) by simp
  from nearest_rel_error [OF nz e, of 53]
  have "\<bar>?z - ?x\<bar> \<le> 2 powi (- 53) * \<bar>?x\<bar>" by (simp add: to_double_def)
  also have "\<dots> \<le> 2 powi (- 53) * 2147483648"
    using x1 by (intro mult_left_mono) simp_all
  finally have "?z \<le> ?x + 2 powi (- 53) * 2147483648" by linarith
  also have "?x \<le> 1677721472 * (ln 2 + 2 powi (- 53))"
    using rounded_ln_half(4) by (intro mult_left_mono) simp_all
  finally have "?z \<le> 1677721472 * ln (2::real) + 1" by (simp add: power_int_minus)
  then have "?z + 1 < 1677721500 * ln (2::real)" using ln_half_bounds(2) by linarith
  moreover have "of_int \<lceil>?z\<rceil> < ?z + 1" by linarith
  moreover have "1677721500 * ln (2::real) \<le> of_int \<lceil>1677721500 * ln (2::real)\<rceil>" by linarith
  ultimately have "real_of_int \<lceil>?z\<rceil> < real_of_int \<lceil>1677721500 * ln (2::real)\<rceil>" by linarith
  then have lt: "\<lceil>?z\<rceil> < \<lceil>1677721500 * ln (2::real)\<rceil>" by (simp only: of_int_less_iff)
  have eq: "- (100 * 16777215) * ln (1 - 1 / 2 :: real) = 1677721500 * ln 2"
    by (simp add: ln_half_bounds(1))
  show "\<lceil>?z\<rceil> < \<lceil>- (100 * 16777215) * ln (1 - 1 / 2 :: real)\<rceil>"
    unfolding eq by (rule lt)
qed

subsection \<open>expon\<close>


lemma expon_next_draw:
  "expon time s = Returns (long_of_double (variate (libm_log s) time (next_draw s)), snd (rand s))"
  by (simp add: expon_def next_draw_def split_beta Let_def)

lemma next_draw_boot:
  "next_draw (boot rm (rand_always r)) = uniform rm r"
  "snd (rand (boot rm gen)) = (boot rm gen)\<lparr>rand_pos := 1\<rparr>"
  "libm_log (boot rm gen) = rounded_ln" "RAND_MAX (boot rm gen) = rm"
  by (simp_all add: next_draw_def rand_def boot_def rand_always_def)

lemma is_float32_values:
  "is_float32 1" "is_float32 3" "is_float32 16777215" "is_float32 288230376151711744"
proof -
  show "is_float32 1" using float32_int [of 1] by (simp add: is_float32_def)
  show "is_float32 3" using float32_int [of 3] by (simp add: is_float32_def)
  show "is_float32 16777215" using float32_int [of 16777215] by (simp add: is_float32_def)
  have "nearest 24 (- 126) 288230376151711744 = 288230376151711744"
    using nearest_exact [of 1 24 "- 126" 58] by simp
  then show "is_float32 288230376151711744"
    using float32_in_range [of 288230376151711744] by (simp add: is_float32_def)
qed

text \<open>
  Claim C3, as stated, fails at three inputs, with the usual \<open>RAND_MAX = 2^31 - 1\<close> and
  a \<open>log\<close> that rounds correctly:
  \<^item> mean 3 and the draw \<open>u = 0\<close> (\<open>rand()\<close> returns 0): the logarithm is \<open>ln 1 = 0\<close> and
    the variate is 0, not a strictly positive integer;
  \<^item> mean \<open>2^58\<close> and the draw \<open>u = 1/2\<close> (\<open>rand()\<close> returns \<open>2^30\<close>): the value computed is
    beyond \<open>long int\<close>, and the variate is the least \<open>long int\<close>;
  \<^item> mean \<open>2^24 - 1\<close> and the draw \<open>u = 1/2\<close>: \<open>100 * mean\<close> is not a float and is
    rounded to 1677721472, and the variate is less than \<open>ceil(-(100 * mean) * ln(1 - u))\<close>.
\<close>

theorem expon_counterexample:
  "is_float32 3 \<and> (0::real) < 3
   \<and> next_draw (boot 2147483647 (rand_always 0)) = Finite 0 \<and> (0::real) < 1
   \<and> expon 3 (boot 2147483647 (rand_always 0))
       = Returns (0, (boot 2147483647 (rand_always 0))\<lparr>rand_pos := 1\<rparr>)
   \<and> \<not> (1::int) \<le> 0
   \<and> is_float32 288230376151711744 \<and> (0::real) < 288230376151711744
   \<and> next_draw (boot 2147483647 (rand_always 1073741824)) = Finite (1 / 2) \<and> (1 / 2 :: real) < 1
   \<and> expon 288230376151711744 (boot 2147483647 (rand_always 1073741824))
       = Returns (LONG_MIN, (boot 2147483647 (rand_always 1073741824))\<lparr>rand_pos := 1\<rparr>)
   \<and> \<not> 1 \<le> LONG_MIN
   \<and> is_float32 16777215 \<and> (0::real) < 16777215
   \<and> expon 16777215 (boot 2147483647 (rand_always 1073741824))
       = Returns (\<lceil>to_double (1677721472 * to_double (ln 2))\<rceil>,
                  (boot 2147483647 (rand_always 1073741824))\<lparr>rand_pos := 1\<rparr>)
   \<and> \<lceil>to_double (1677721472 * to_double (ln 2))\<rceil>
       < \<lceil>- (100 * 16777215) * ln (1 - 1 / 2 :: real)\<rceil>"
proof -
  let ?z = "boot 2147483647 (rand_always 0)"
  let ?h = "boot 2147483647 (rand_always 1073741824)"
  have d0: "next_draw ?z = Finite 0" and dh: "next_draw ?h = Finite (1 / 2)"
    by (simp_all add: next_draw_boot uniform_values)
  have "variate (libm_log ?z) 3 (Finite 0) = Finite 0"
    by (rule variate_at_zero [of _ 300]) (simp add: float_values)
  then have e0: "expon 3 ?z = Returns (0, ?z\<lparr>rand_pos := 1\<rparr>)"
    by (simp add: expon_next_draw d0 long_of_double_values next_draw_boot(2-4))
  have e1: "expon 288230376151711744 ?h = Returns (LONG_MIN, ?h\<lparr>rand_pos := 1\<rparr>)"
    by (simp add: expon_next_draw dh next_draw_boot(2-4) variate_too_long)
  let ?v = "\<lceil>to_double (1677721472 * to_double (ln 2))\<rceil>"
  have "long_of_double (Finite (of_int ?v)) = ?v"
    using variate_rounded(2,3)
    by (simp add: long_of_double_def LONG_MIN_def LONG_MAX_def)
  then have e2: "expon 16777215 ?h = Returns (?v, ?h\<lparr>rand_pos := 1\<rparr>)"
    by (simp add: expon_next_draw dh next_draw_boot(2-4) variate_rounded(1))
  have n: "\<not> (1::int) \<le> 0" "\<not> 1 \<le> LONG_MIN" "(0::real) < 3" "(0::real) < 1"
    "(0::real) < 288230376151711744" "(1 / 2 :: real) < 1" "(0::real) < 16777215"
    by (simp_all add: LONG_MIN_def)
  show ?thesis
    by (intro conjI) (rule is_float32_values d0 dh e0 e1 e2 n variate_rounded(4))+
qed

text \<open>
  Claim C3, amended: for every positive mean and every uniform draw \<open>u\<close> with
  \<open>0 < u < 1\<close>, with a C library that keeps to \<open>lib_ok\<close>, \<open>expon\<close> computes
  \<open>ceil(-(100 * mean) * log(1 - u))\<close> in floating-point arithmetic (\<open>100 * mean\<close> rounded
  to a float, \<open>1 - u\<close> and the product rounded to doubles, \<open>log\<close> the library's); the
  value \<open>v\<close> is at least 1, and \<open>expon\<close> returns it when it fits a \<open>long int\<close>.
\<close>

theorem expon_positive:
  assumes "is_float32 time" and "0 < time"
    and "lib_ok s"
    and "next_draw s = Finite u" and "0 < u" and "u < 1"
    and "variate (libm_log s) time (Finite u) = Finite v" and "v \<le> real_of_int LONG_MAX"
  shows "v = of_int \<lceil>to_double (- to_float (time * 100) * libm_log s (to_double (1 - u)))\<rceil>
       \<and> 1 \<le> v
       \<and> expon time s =
           Returns (\<lceil>to_double (- to_float (time * 100) * libm_log s (to_double (1 - u)))\<rceil>,
                    snd (rand s))"
proof -
  let ?n = "\<lceil>to_double (- to_float (time * 100) * libm_log s (to_double (1 - u)))\<rceil>"
  from assms(3) have l: "0 < RAND_MAX s" "RAND_MAX s \<le> 2147483647" "log_ok (libm_log s)"
    by (simp_all add: lib_ok_def INT_MAX_def)
  from assms(4) have d: "uniform (RAND_MAX s) (fst (rand s)) = Finite u"
    by (simp add: next_draw_def)
  note p = variate_positive [OF assms(1,2) l(1,2) d assms(5,6) l(3) assms(7)]
  from p(1) have v: "v = of_int ?n" by (simp add: to_double_def to_float_def)
  from p(2) v have "1 \<le> ?n" by simp
  moreover from assms(8) v have "?n \<le> LONG_MAX" by simp
  ultimately have "long_of_double (Finite (of_int ?n)) = ?n"
    by (simp add: long_of_double_def LONG_MIN_def)
  with v have "expon time s = Returns (?n, snd (rand s))"
    by (simp add: expon_next_draw assms(4,7))
  with v p(2) show ?thesis by simp
qed

theorem expon_positive_witness:
  "is_float32 1 \<and> (0::real) < 1
   \<and> lib_ok (boot 2147483647 (rand_always 1073741824))
   \<and> next_draw (boot 2147483647 (rand_always 1073741824)) = Finite (1 / 2)
   \<and> (0::real) < 1 / 2 \<and> (1 / 2 :: real) < 1
   \<and> variate (libm_log (boot 2147483647 (rand_always 1073741824))) 1 (Finite (1 / 2))
       = Finite (of_int \<lceil>to_double (100 * to_double (ln 2))\<rceil>)
   \<and> real_of_int \<lceil>to_double (100 * to_double (ln 2))\<rceil> \<le> real_of_int LONG_MAX
   \<and> 1 \<le> \<lceil>to_double (100 * to_double (ln 2))\<rceil>
   \<and> expon 1 (boot 2147483647 (rand_always 1073741824))
       = Returns (\<lceil>to_double (100 * to_double (ln 2))\<rceil>,
                  (boot 2147483647 (rand_always 1073741824))\<lparr>rand_pos := 1\<rparr>)"
proof -
  let ?h = "boot 2147483647 (rand_always 1073741824)"
  let ?n = "\<lceil>to_double (100 * to_double (ln 2))\<rceil>"
  have tf: "to_float 100 = 100" using to_float_int [of 100] by (simp add: to_float_def)
  have td: "to_double (1 / 2) = 1 / 2"
    using nearest_exact [of 1 53 "- 1022" "- 1"] by (simp add: to_double_def power_int_minus)
  have x: "- to_float (1 * 100) * libm_log ?h (to_double (1 - 1 / 2)) = 100 * to_double (ln 2)"
    by (simp add: tf td next_draw_boot rounded_ln_half(1))
  have h: "is_float32 1" "(0::real) < 1" "lib_ok ?h" "next_draw ?h = Finite (1 / 2)"
    "(0::real) < 1 / 2" "(1 / 2 :: real) < 1"
    "variate (libm_log ?h) 1 (Finite (1 / 2)) = Finite (of_int ?n)"
    "real_of_int ?n \<le> real_of_int LONG_MAX"
    using variate_example(2)
    by (simp_all add: is_float32_values lib_ok_def INT_MAX_def next_draw_boot rounded_ln_ok
        uniform_values variate_example(1) LONG_MAX_def)
  from expon_positive [OF h] have r: "1 \<le> ?n" "expon 1 ?h = Returns (?n, ?h\<lparr>rand_pos := 1\<rparr>)"
    unfolding x by (simp_all add: next_draw_boot)
  show ?thesis
    by (intro conjI) (rule h r)+
qed

lemma draw_at_RAND_MAX:
  assumes "0 < RAND_MAX s" "fst (rand s) = RAND_MAX s"
  shows "next_draw s = Finite 1 \<and> expon time s = Returns (LONG_MIN, snd (rand s))"
proof -
  from assms have "next_draw s = Finite 1" by (simp add: next_draw_def uniform_same)
  then show ?thesis
    by (simp add: expon_next_draw variate_at_one long_of_double_values)
qed

lemma draw_near_RAND_MAX:
  assumes "RAND_MAX s = 2147483647" "2147483584 \<le> fst (rand s)" "fst (rand s) \<le> 2147483647"
  shows "next_draw s = Finite 1 \<and> expon time s = Returns (LONG_MIN, snd (rand s))"
proof -
  from assms have "next_draw s = Finite 1" by (simp add: next_draw_def uniform_near_RAND_MAX)
  then show ?thesis
    by (simp add: expon_next_draw variate_at_one long_of_double_values)
qed

text \<open>
  Claim C4: the draw is \<open>rand() / (float) RAND_MAX\<close>, and \<open>rand()\<close> may return \<open>RAND_MAX\<close>
  itself. Then the draw is exactly 1, the argument of \<open>log\<close> is exactly 0, the logarithm
  is an infinity, and the variate is what the conversion of an infinity (of a NaN, for
  the mean 0) to \<open>long int\<close> gives: the least \<open>long int\<close>. Here \<open>RAND_MAX\<close> is the C
  library's usual \<open>2^31 - 1\<close>; the same holds for every positive \<open>RAND_MAX\<close> (lemma
  \<open>draw_at_RAND_MAX\<close>), and with this \<open>RAND_MAX\<close>, which is not a float, for the 64
  values of \<open>rand()\<close> from \<open>2^31 - 64\<close> on (lemma \<open>draw_near_RAND_MAX\<close>).
\<close>

theorem expon_draw_is_one:
  "next_draw (boot 2147483647 (rand_always 2147483647)) = Finite 1
   \<and> float64_sub (Finite 1) (next_draw (boot 2147483647 (rand_always 2147483647))) = Finite 0
   \<and> log_double (libm_log (boot 2147483647 (rand_always 2147483647))) (Finite 0) = Not_finite
   \<and> expon time (boot 2147483647 (rand_always 2147483647))
       = Returns (LONG_MIN, (boot 2147483647 (rand_always 2147483647))\<lparr>rand_pos := 1\<rparr>)"
  by (simp add: next_draw_boot uniform_values float64_sub_def float_values log_double_def
      expon_next_draw variate_at_one long_of_double_values)

subsection \<open>Results of computations\<close>

lemma postD: "post m Q \<Longrightarrow> m = Returns x \<Longrightarrow> Q x"
  by (simp add: post_def)

lemma post_Returns: "Q x \<Longrightarrow> post (Returns x) Q"
  by (simp add: post_def)

lemma post_Fault: "post (Fault f) Q"
  by (simp add: post_def)

lemma post_Diverges: "post Diverges Q"
  by (simp add: post_def)

lemma post_and_then: "post m (\<lambda>x. post (f x) Q) \<Longrightarrow> post (and_then m f) Q"
  by (auto simp: post_def and_then_Returns)



lemma post_if: "(b \<Longrightarrow> post m Q) \<Longrightarrow> (\<not> b \<Longrightarrow> post n Q) \<Longrightarrow> post (if b then m else n) Q"
  by simp

lemma post_prod:
  "(\<And>a b. x = (a, b) \<Longrightarrow> post (f a b) Q) \<Longrightarrow> post (case x of (a, b) \<Rightarrow> f a b) Q"
  by (cases x) simp

lemma post_deref: "(\<And>a x. p = Some a \<Longrightarrow> h a = Some x \<Longrightarrow> Q x) \<Longrightarrow> post (deref h p) Q"
  by (auto simp: post_def deref_Returns)

lemma post_any: "(\<And>x. Q x) \<Longrightarrow> post m Q"
  by (simp add: post_def)

lemma post_to_long:
  "(LONG_MIN \<le> v \<Longrightarrow> v \<le> LONG_MAX \<Longrightarrow> Q v) \<Longrightarrow> post (to_long v) Q"
  by (simp add: post_def to_long_Returns)

lemma post_initialised: "(\<And>x. v = Some x \<Longrightarrow> Q x) \<Longrightarrow> post (initialised v) Q"
  by (cases v) (simp_all add: post_def initialised_def)

lemma post_free:
  "(p = None \<Longrightarrow> Q h) \<Longrightarrow> (\<And>a x. p = Some a \<Longrightarrow> h a = Some x \<Longrightarrow> Q (h(a := None)))
   \<Longrightarrow> post (free h p) Q"
  by (auto simp: post_def free_def split: option.splits)

lemma ev_write_Returns:
  "ev_write p f s = Returns s' \<longleftrightarrow>
     (\<exists>a n. p = Some a \<and> events s a = Some n \<and> s' = s\<lparr>events := (events s)(a \<mapsto> f n)\<rparr>)"
  by (auto simp: ev_write_def and_then_Returns deref_Returns)

lemma post_ev_write:
  "(\<And>a n. p = Some a \<Longrightarrow> events s a = Some n \<Longrightarrow> Q (s\<lparr>events := (events s)(a \<mapsto> f n)\<rparr>))
   \<Longrightarrow> post (ev_write p f s) Q"
  by (auto simp: post_def ev_write_Returns)

lemmas post_rules = post_Returns post_Fault post_Diverges post_and_then post_if post_prod
  post_deref post_ev_write post_to_long post_initialised post_free

subsection \<open>Doubly linked lists in the heap\<close>

lemma dlist_upd [simp]:
  "a \<notin> set as \<Longrightarrow> dlist (h(a := v)) prev p as q = dlist h prev p as q"
  by (induction as arbitrary: prev p) (auto split: option.splits)

lemma dlist_append:
  "dlist h prev p (xs @ ys) q \<longleftrightarrow>
     (\<exists>m. dlist h prev p xs m \<and> dlist h (if xs = [] then prev else Some (last xs)) m ys q)"
  by (induction xs arbitrary: prev p) (auto split: option.splits)

lemma dlist_snoc:
  "dlist h prev p (xs @ [a]) q \<longleftrightarrow>
     dlist h prev p xs (Some a) \<and>
     (\<exists>n. h a = Some n \<and> backward n = (if xs = [] then prev else Some (last xs)) \<and> forward n = q)"
  by (auto simp: dlist_append split: option.splits)

lemma dlist_dom: "dlist h prev p as q \<Longrightarrow> set as \<subseteq> dom h"
  by (induction as arbitrary: prev p) (auto split: option.splits)

lemma last_ptr_simps [simp]:
  "last_ptr [] = None" "last_ptr (xs @ [x]) = Some x" "last_ptr [x] = Some x"
  by (simp_all add: last_ptr_def)

lemma timeline_fresh: "timeline s as \<Longrightarrow> events s b = None \<Longrightarrow> b \<notin> set as"
  using dlist_dom [of "events s" None "top_event s" as None] by (auto simp: timeline_def)

lemma timeline_allocated: "timeline s as \<Longrightarrow> a \<in> set as \<Longrightarrow> \<exists>n. events s a = Some n"
  using dlist_dom [of "events s" None "top_event s" as None] by (auto simp: timeline_def)

lemma timeline_Nil: "timeline s [] \<longleftrightarrow> top_event s = None \<and> last_event s = None"
  by (auto simp: timeline_def)

lemma timeline_last_None: "timeline s as \<Longrightarrow> last_event s = None \<longleftrightarrow> as = []"
  by (auto simp: timeline_def last_ptr_def)

lemma timeline_unique: "timeline s as \<Longrightarrow> timeline s bs \<Longrightarrow> as = bs"
proof -
  have "dlist h prev p as None \<Longrightarrow> dlist h prev p bs None \<Longrightarrow> as = bs" for h prev p
  proof (induction as arbitrary: prev p bs)
    case Nil
    then show ?case by (cases bs) auto
  next
    case (Cons a as)
    then show ?case by (cases bs) (auto split: option.splits)
  qed
  then show "timeline s as \<Longrightarrow> timeline s bs \<Longrightarrow> as = bs"
    by (auto simp: timeline_def)
qed

subsection \<open>Sorted lists and the place of a new element\<close>

lemma sorted_le_last:
  assumes "sorted (map key xs)" "y \<in> set xs"
  shows "key y \<le> key (last xs)"
proof -
  from assms(2) obtain ys zs where "xs = ys @ y # zs" by (auto simp: in_set_conv_decomp)
  with assms(1) show ?thesis
    by (cases zs rule: rev_cases) (auto simp: sorted_append)
qed

lemma insert_at_back:
  assumes "sorted (map key xs)" "xs \<noteq> []" "key (last xs) \<le> t"
  shows "insert_at key t x xs = xs @ [x]"
proof -
  have "\<forall>y\<in>set xs. key y \<le> t"
    using sorted_le_last [OF assms(1)] assms(3) by fastforce
  then show ?thesis by (simp add: insert_at_def)
qed

lemma dropWhile_sorted_gt:
  assumes "sorted (map key zs)"
  shows "\<forall>y\<in>set (dropWhile (\<lambda>y. key y \<le> t) zs). t < key y"
proof (cases "dropWhile (\<lambda>y. key y \<le> t) zs")
  case Nil
  show ?thesis unfolding Nil by simp
next
  case (Cons b bs)
  let ?P = "\<lambda>y. key y \<le> t"
  have split: "zs = takeWhile ?P zs @ dropWhile ?P zs" by simp
  have ne: "dropWhile ?P zs \<noteq> []" unfolding Cons by simp
  have "\<not> ?P b" using hd_dropWhile [OF ne] unfolding Cons by simp
  moreover have "sorted (map key (dropWhile ?P zs))"
    using assms sorted_append [of "map key (takeWhile ?P zs)" "map key (dropWhile ?P zs)"]
    by (metis map_append split)
  ultimately show ?thesis unfolding Cons by fastforce
qed

lemma insert_at_split:
  assumes "sorted (map key zs)"
  shows "\<exists>xs ys. zs = xs @ ys \<and> insert_at key t x zs = xs @ x # ys
     \<and> (\<forall>y\<in>set xs. key y \<le> t) \<and> (\<forall>y\<in>set ys. t < key y)"
proof (intro exI conjI)
  show "zs = takeWhile (\<lambda>y. key y \<le> t) zs @ dropWhile (\<lambda>y. key y \<le> t) zs" by simp
  show "insert_at key t x zs = takeWhile (\<lambda>y. key y \<le> t) zs @ x # dropWhile (\<lambda>y. key y \<le> t) zs"
    by (simp add: insert_at_def)
  show "\<forall>y\<in>set (takeWhile (\<lambda>y. key y \<le> t) zs). key y \<le> t"
    by (auto dest: set_takeWhileD)
  show "\<forall>y\<in>set (dropWhile (\<lambda>y. key y \<le> t) zs). t < key y"
    using assms by (rule dropWhile_sorted_gt)
qed

lemma sorted_insert_at:
  assumes "sorted (map key zs)" "key x = t"
  shows "sorted (map key (insert_at key t x zs))"
proof -
  let ?P = "\<lambda>y. key y \<le> t"
  have split: "zs = takeWhile ?P zs @ dropWhile ?P zs" by simp
  have le: "\<forall>y\<in>set (takeWhile ?P zs). key y \<le> t" by (auto dest: set_takeWhileD)
  have gt: "\<forall>y\<in>set (dropWhile ?P zs). t < key y"
    using assms(1) by (rule dropWhile_sorted_gt)
  have "sorted (map key (takeWhile ?P zs))" "sorted (map key (dropWhile ?P zs))"
    using assms(1) sorted_append [of "map key (takeWhile ?P zs)" "map key (dropWhile ?P zs)"]
    by (metis map_append split)+
  with le gt assms(2) show ?thesis
    by (fastforce simp: insert_at_def sorted_append)
qed

lemma set_insert_at [simp]: "set (insert_at key t x zs) = insert x (set zs)"
proof -
  have "set zs = set (takeWhile (\<lambda>y. key y \<le> t) zs) \<union> set (dropWhile (\<lambda>y. key y \<le> t) zs)"
    by (metis set_append takeWhile_dropWhile_id)
  then show ?thesis by (auto simp: insert_at_def)
qed

subsection \<open>Insert\_event\<close>

lemma Insert_event_loop_False [simp]:
  "Insert_event_loop h t p False = Some (Returns (p, False))"
  by (subst Insert_event_loop.simps) simp

lemma Insert_event_loop_None [simp]:
  "Insert_event_loop h t None nf = Some (Returns (None, nf))"
  by (subst Insert_event_loop.simps) simp

lemma Insert_event_loop_dlist:
  "dlist h prev p as None \<Longrightarrow>
   Insert_event_loop h t p True =
     Some (Returns (case dropWhile (\<lambda>a. ev_time (the (h a)) \<le> t) as of
                      [] \<Rightarrow> (None, True) | b # bs \<Rightarrow> (Some b, False)))"
proof (induction as arbitrary: prev p)
  case Nil
  then show ?case by simp
next
  case (Cons a as)
  then obtain n where n: "p = Some a" "h a = Some n" "dlist h (Some a) (forward n) as None"
    by (auto split: option.splits)
  show ?case
  proof (cases "ev_time n > t")
    case True
    with n show ?thesis by (subst Insert_event_loop.simps) simp
  next
    case False
    with n Cons.IH [OF n(3)] show ?thesis by (subst Insert_event_loop.simps) simp
  qed
qed

lemma Insert_event_timeline:
  assumes tl: "timeline s as" and fresh: "events s (brk s) = None"
      and sorted: "sorted (map (time_at s) as)"
  shows "\<exists>s'. Insert_event ty t c s = Returns s'
           \<and> timeline s' (insert_at (time_at s) t (brk s) as) \<and> stdout s' = stdout s"
proof -
  let ?loc = "brk s"
  let ?new = "\<lparr>ev_type = ty, ev_time = t, cust_index = c, forward = None, backward = None\<rparr>"
  let ?h = "(events s)(?loc \<mapsto> ?new)"
  from tl fresh have loc: "?loc \<notin> set as" by (rule timeline_fresh)
  from tl have dl: "dlist (events s) None (top_event s) as None" and dist: "distinct as"
    and last: "last_event s = last_ptr as" by (simp_all add: timeline_def)
  show ?thesis
  proof (cases as)
    case Nil
    with tl show ?thesis
      by (simp add: Insert_event_def Let_def timeline_def insert_at_def)
  next
    case (Cons a as')
    with dl obtain n where n: "top_event s = Some a" "events s a = Some n" "backward n = None"
      "dlist (events s) (Some a) (forward n) as' None"
      by (auto split: option.splits)
    from loc Cons have la: "a \<noteq> ?loc" by auto
    show ?thesis
    proof (cases "ev_time n > t")
      case True
      then have ins: "insert_at (time_at s) t ?loc as = ?loc # as"
        using Cons n by (simp add: insert_at_def time_at_def)
      from True n la loc dist Cons last show ?thesis
        unfolding ins
        by (simp add: Insert_event_def Let_def timeline_def ev_write_def last_ptr_def)
    next
      case False
      obtain xs l where xs: "as = xs @ [l]"
        using Cons by (metis list.distinct(1) rev_exhaust)
      with dl obtain nl where nl: "events s l = Some nl" "forward nl = None"
        "backward nl = (if xs = [] then None else Some (last xs))"
        "dlist (events s) None (top_event s) xs (Some l)"
        by (auto simp: dlist_snoc)
      from loc xs have ll: "l \<noteq> ?loc" by auto
      from last xs have le: "last_event s = Some l" by simp
      show ?thesis
      proof (cases "ev_time nl \<le> t")
        case True
        have ins: "insert_at (time_at s) t ?loc as = as @ [?loc]"
          using sorted xs True nl by (intro insert_at_back) (simp_all add: time_at_def)
        from dist xs have lx: "l \<notin> set xs" by simp
        from loc xs have locx: "?loc \<notin> set xs" by simp
        from True False n la nl ll le lx locx dist loc xs show ?thesis
          unfolding ins
          by (simp add: Insert_event_def Let_def timeline_def ev_write_def dlist_append
              last_ptr_def)
      next
        case nlast: False
        let ?P = "\<lambda>y. time_at s y \<le> t"
        have Pa: "?P a" using False n by (simp add: time_at_def)
        have Pl: "\<not> ?P l" using nlast nl by (simp add: time_at_def)
        from Pl xs obtain b ys where drop: "dropWhile ?P as = b # ys"
          by (cases "dropWhile ?P as") (auto simp: dropWhile_eq_Nil_conv)
        from Pa Cons obtain zs x where take: "takeWhile ?P as = zs @ [x]"
          by (cases "takeWhile ?P as" rule: rev_cases) auto
        have split: "as = zs @ [x] @ b # ys"
          using takeWhile_dropWhile_id [of ?P as] by (simp add: take drop)
        from dl split obtain nx nb where
          zs: "dlist (events s) None (top_event s) zs (Some x)" and
          nx: "events s x = Some nx" "forward nx = Some b"
              "backward nx = (if zs = [] then None else Some (last zs))" and
          nb: "events s b = Some nb" "backward nb = Some x" and
          ys: "dlist (events s) (Some b) (forward nb) ys None"
          by (auto simp: dlist_append split: option.splits)
        from dist split have d: "x \<noteq> b" "x \<notin> set zs" "b \<notin> set zs" "x \<notin> set ys"
          "b \<notin> set ys" "distinct zs" "distinct ys" "set zs \<inter> set ys = {}"
          by auto
        from loc split have l: "?loc \<noteq> x" "?loc \<noteq> b" "?loc \<notin> set zs" "?loc \<notin> set ys"
          by auto
        have "dlist ?h None (top_event s) as None" using dl loc by simp
        then have "Insert_event_loop ?h t (top_event s) True =
            Some (Returns (case dropWhile (\<lambda>a. ev_time (the (?h a)) \<le> t) as of
                      [] \<Rightarrow> (None, True) | b # bs \<Rightarrow> (Some b, False)))"
          by (rule Insert_event_loop_dlist)
        moreover have "dropWhile (\<lambda>a. ev_time (the (?h a)) \<le> t) as = dropWhile ?P as"
          using loc by (intro dropWhile_cong) (auto simp: time_at_def)
        ultimately have loop: "Insert_event_loop ?h t (top_event s) True
            = Some (Returns (Some b, False))"
          by (simp add: drop)
        have ins: "insert_at (time_at s) t ?loc as = zs @ [x, ?loc, b] @ ys"
          by (simp add: insert_at_def take drop)
        have lp: "last_ptr (zs @ x # ?loc # b # ys) = Some l"
          using le last by (simp add: split last_ptr_def)
        from nlast False n la nl ll le loop zs nx nb ys d l show ?thesis
          unfolding ins
          by (simp add: Insert_event_def Let_def timeline_def ev_write_def dlist_append lp)
      qed
    qed
  qed
qed

lemma reports_append [simp]: "reports (xs @ ys) = reports xs @ reports ys"
  by (induction xs rule: reports.induct) simp_all

lemma ev_effect_refl [simp]: "ev_effect s s"
  by (simp add: ev_effect_def links_only_def)

lemma Insert_event_effect:
  "post (Insert_event ty t c s) (\<lambda>s'. ev_effect (s\<lparr>brk := Suc (brk s),
        events := (events s)(brk s \<mapsto> \<lparr>ev_type = ty, ev_time = t, cust_index = c,
                    forward = None, backward = None\<rparr>)\<rparr>) s')"
  unfolding Insert_event_def Let_def
  apply (intro post_rules post_any [of _ "finished _"])
  apply (auto simp: ev_effect_def ev_frame_def links_only_def payload_def printf_def)
  done

lemma ev_frame_fields:
  assumes "ev_frame s' = ev_frame s"
  shows "custs s' = custs s" "queue s' = queue s" "q_head s' = q_head s" "q_last s' = q_last s"
    "accum_resp_time s' = accum_resp_time s" "num_resp_time s' = num_resp_time s"
    "iarrive_time s' = iarrive_time s" "service_time s' = service_time s"
    "sim_length s' = sim_length s" "clock s' = clock s" "busy s' = busy s" "seed s' = seed s"
    "libc_seed s' = libc_seed s" "libc_rand s' = libc_rand s" "rand_pos s' = rand_pos s"
    "RAND_MAX s' = RAND_MAX s"
proof -
  show "custs s' = custs s" using arg_cong [OF assms, of custs] by (simp add: ev_frame_def)
  show "queue s' = queue s" using arg_cong [OF assms, of queue] by (simp add: ev_frame_def)
  show "q_head s' = q_head s" using arg_cong [OF assms, of q_head] by (simp add: ev_frame_def)
  show "q_last s' = q_last s" using arg_cong [OF assms, of q_last] by (simp add: ev_frame_def)
  show "accum_resp_time s' = accum_resp_time s"
    using arg_cong [OF assms, of accum_resp_time] by (simp add: ev_frame_def)
  show "num_resp_time s' = num_resp_time s"
    using arg_cong [OF assms, of num_resp_time] by (simp add: ev_frame_def)
  show "iarrive_time s' = iarrive_time s"
    using arg_cong [OF assms, of iarrive_time] by (simp add: ev_frame_def)
  show "service_time s' = service_time s"
    using arg_cong [OF assms, of service_time] by (simp add: ev_frame_def)
  show "sim_length s' = sim_length s"
    using arg_cong [OF assms, of sim_length] by (simp add: ev_frame_def)
  show "clock s' = clock s" using arg_cong [OF assms, of clock] by (simp add: ev_frame_def)
  show "busy s' = busy s" using arg_cong [OF assms, of busy] by (simp add: ev_frame_def)
  show "seed s' = seed s" using arg_cong [OF assms, of seed] by (simp add: ev_frame_def)
  show "libc_seed s' = libc_seed s"
    using arg_cong [OF assms, of libc_seed] by (simp add: ev_frame_def)
  show "libc_rand s' = libc_rand s"
    using arg_cong [OF assms, of libc_rand] by (simp add: ev_frame_def)
  show "rand_pos s' = rand_pos s"
    using arg_cong [OF assms, of rand_pos] by (simp add: ev_frame_def)
  show "RAND_MAX s' = RAND_MAX s"
    using arg_cong [OF assms, of RAND_MAX] by (simp add: ev_frame_def)
qed

lemma Insert_event_frame:
  assumes "Insert_event ty t c s = Returns s'"
  shows "ev_frame s' = ev_frame s" "brk s' = Suc (brk s)"
    "reports (stdout s') = reports (stdout s)"
    "map_option payload (events s' b) =
       (if b = brk s then Some (ty, t, c) else map_option payload (events s b))"
  using postD [OF Insert_event_effect assms]
  by (simp_all add: ev_effect_def ev_frame_def links_only_def payload_def)

lemma Insert_event_event_at:
  assumes "Insert_event ty t c s = Returns s'"
  shows "event_at s' (brk s) = (ty, t, c)" "time_at s' (brk s) = t"
    "events s b \<noteq> None \<Longrightarrow> b \<noteq> brk s \<Longrightarrow> event_at s' b = event_at s b"
    "events s b \<noteq> None \<Longrightarrow> b \<noteq> brk s \<Longrightarrow> time_at s' b = time_at s b"
    "events s' b \<noteq> None \<longleftrightarrow> b = brk s \<or> events s b \<noteq> None"
proof -
  note p = Insert_event_frame(4) [OF assms]
  from p [of "brk s"] show "event_at s' (brk s) = (ty, t, c)"
    by (cases "events s' (brk s)") (simp_all add: event_at_def)
  from p [of "brk s"] show "time_at s' (brk s) = t"
    by (cases "events s' (brk s)") (simp_all add: time_at_def payload_def)
  from p [of b] show "events s b \<noteq> None \<Longrightarrow> b \<noteq> brk s \<Longrightarrow> event_at s' b = event_at s b"
    by (cases "events s' b"; cases "events s b") (simp_all add: event_at_def)
  from p [of b] show "events s b \<noteq> None \<Longrightarrow> b \<noteq> brk s \<Longrightarrow> time_at s' b = time_at s b"
    by (cases "events s' b"; cases "events s b") (simp_all add: time_at_def payload_def)
  from p [of b] show "events s' b \<noteq> None \<longleftrightarrow> b = brk s \<or> events s b \<noteq> None"
    by (cases "events s' b"; cases "events s b") (simp_all split: if_splits)
qed

lemma insert_at_known:
  assumes "\<forall>y\<in>set xs. key y \<le> t" "\<forall>y\<in>set ys. t < key y"
  shows "insert_at key t x (xs @ ys) = xs @ x # ys"
proof -
  have "takeWhile (\<lambda>y. key y \<le> t) ys = []" "dropWhile (\<lambda>y. key y \<le> t) ys = ys"
    using assms(2) by (cases ys; fastforce)+
  with assms(1) show ?thesis
    by (simp add: insert_at_def)
qed

lemma Insert_event_sorted:
  assumes tl: "timeline s as" and sorted: "sorted (map (time_at s) as)"
      and fresh: "events s (brk s) = None"
  shows "\<exists>s' xs ys. Insert_event ty t c s = Returns s' \<and> as = xs @ ys
           \<and> timeline s' (xs @ brk s # ys)
           \<and> (\<forall>a\<in>set xs. time_at s a \<le> t) \<and> (\<forall>a\<in>set ys. t < time_at s a)
           \<and> event_at s' (brk s) = (ty, t, c) \<and> (\<forall>a\<in>set as. event_at s' a = event_at s a)
           \<and> (\<forall>a\<in>set as. time_at s' a = time_at s a) \<and> time_at s' (brk s) = t
           \<and> sorted (map (time_at s') (xs @ brk s # ys)) \<and> stdout s' = stdout s"
proof -
  from Insert_event_timeline [OF tl fresh sorted, of ty t c] obtain s' where
    s': "Insert_event ty t c s = Returns s'" "timeline s' (insert_at (time_at s) t (brk s) as)"
      "stdout s' = stdout s"
    by blast
  from insert_at_split [OF sorted, of t "brk s"] obtain xs ys where
    xy: "as = xs @ ys" "insert_at (time_at s) t (brk s) as = xs @ brk s # ys"
      "\<forall>y\<in>set xs. time_at s y \<le> t" "\<forall>y\<in>set ys. t < time_at s y"
    by blast
  have old: "a \<in> set as \<Longrightarrow> events s a \<noteq> None \<and> a \<noteq> brk s" for a
    using timeline_allocated [OF tl, of a] timeline_fresh [OF tl fresh] by auto
  have ev: "\<forall>a\<in>set as. event_at s' a = event_at s a"
    using Insert_event_event_at(3) [OF s'(1)] old by blast
  have tm: "\<forall>a\<in>set as. time_at s' a = time_at s a"
    using Insert_event_event_at(4) [OF s'(1)] old by blast
  have new: "time_at s' (brk s) = t" "event_at s' (brk s) = (ty, t, c)"
    using Insert_event_event_at(1,2) [OF s'(1)] by simp_all
  have meq: "map (time_at s') as = map (time_at s) as" using tm by simp
  have "sorted (map (time_at s') as)" unfolding meq by (rule sorted)
  from sorted_insert_at [OF this new(1)] have "sorted (map (time_at s') (xs @ brk s # ys))"
    using insert_at_known [of xs "time_at s'" t ys "brk s"] xy tm by simp
  with s' xy ev tm new show ?thesis by auto
qed

subsection \<open>Remove\_event\<close>

lemma Remove_event_timeline:
  assumes "timeline s (a # as)"
  shows "\<exists>s'. Remove_event s = Returns (Some a, s') \<and> timeline s' as \<and> stdout s' = stdout s"
proof -
  from assms obtain n where n: "top_event s = Some a" "events s a = Some n"
    "dlist (events s) (Some a) (forward n) as None" "a \<notin> set as" "distinct as"
    "last_event s = last_ptr (a # as)"
    by (auto simp: timeline_def split: option.splits)
  show ?thesis
  proof (cases as)
    case Nil
    with n show ?thesis
      by (simp add: Remove_event_def Let_def timeline_def)
  next
    case (Cons b bs)
    with n obtain nb where nb: "forward n = Some b" "events s b = Some nb"
      "dlist (events s) (Some b) (forward nb) bs None"
      by (auto split: option.splits)
    from n Cons have ab: "a \<noteq> b" "a \<notin> set bs" "b \<notin> set bs" "distinct bs" by auto
    from n Cons ab have "last_event s \<noteq> top_event s" "last_event s \<noteq> None"
      by (auto simp: last_ptr_def)
    with n nb ab Cons show ?thesis
      by (simp add: Remove_event_def Let_def timeline_def ev_write_def last_ptr_def)
  qed
qed

lemma Remove_event_empty:
  assumes "timeline s []"
  shows "Remove_event s = Returns (None, printf (Text '' ***Error - Event list underflow***'') s)"
  using assms by (simp add: Remove_event_def timeline_def)

lemma Remove_event_effect:
  "post (Remove_event s) (\<lambda>(p, s'). ev_effect s s' \<and> (p = None \<or> p = top_event s))"
  unfolding Remove_event_def Let_def
  apply (intro post_rules)
  apply (auto simp: ev_effect_def ev_frame_def links_only_def payload_def printf_def)
  done

lemma links_only_event_at:
  assumes "links_only (events s) (events s')"
  shows "event_at s' a = event_at s a" "time_at s' a = time_at s a"
    "events s' a = None \<longleftrightarrow> events s a = None"
proof -
  from assms have p: "map_option payload (events s' a) = map_option payload (events s a)"
    by (simp add: links_only_def)
  then show "events s' a = None \<longleftrightarrow> events s a = None"
    by (cases "events s' a"; cases "events s a") simp_all
  from p show "event_at s' a = event_at s a"
    by (cases "events s' a"; cases "events s a") (simp_all add: event_at_def)
  from p show "time_at s' a = time_at s a"
    by (cases "events s' a"; cases "events s a") (simp_all add: time_at_def payload_def)
qed

lemma Remove_event_frame:
  assumes "Remove_event s = Returns (p, s')"
  shows "ev_frame s' = ev_frame s" "brk s' = brk s" "reports (stdout s') = reports (stdout s)"
    "event_at s' a = event_at s a" "time_at s' a = time_at s a"
    "events s' a = None \<longleftrightarrow> events s a = None"
  using postD [OF Remove_event_effect assms] links_only_event_at [of s s' a]
  by (simp_all add: ev_effect_def)

lemma Remove_events_timeline:
  "timeline s as \<Longrightarrow> \<exists>s'. Remove_events (length as) s = Returns (map Some as, s') \<and> timeline s' []"
proof (induction as arbitrary: s)
  case Nil
  then show ?case by simp
next
  case (Cons a as)
  from Remove_event_timeline [OF Cons.prems] obtain s1 where
    s1: "Remove_event s = Returns (Some a, s1)" "timeline s1 as" by blast
  from Cons.IH [OF s1(2)] s1(1) show ?case by auto
qed

text \<open>
  Claim C2. Of an event list that is well formed and sorted by time, in a state where
  \<open>malloc\<close> returns unused memory:
  \<^item> \<open>Insert_event\<close> puts the new node (at the address \<open>brk s\<close>) after every event of a
    time up to the new time \<open>t\<close> and before every later one, changes no event, and
    leaves the list well formed and sorted;
  \<^item> \<open>Remove_event\<close> returns the first node and leaves the rest;
  \<^item> hence after events A and then B are inserted with the same time, B stands right
    after A, and calling \<open>Remove_event\<close> until the list is empty returns A before B.
\<close>

theorem timeline_order:
  assumes "timeline s as" and "sorted (map (time_at s) as)"
    and "unused_from (events s) (brk s)"
  shows "(\<exists>s' xs ys. Insert_event ty t c s = Returns s' \<and> as = xs @ ys
            \<and> timeline s' (xs @ brk s # ys)
            \<and> (\<forall>a\<in>set xs. time_at s a \<le> t) \<and> (\<forall>a\<in>set ys. t < time_at s a)
            \<and> event_at s' (brk s) = (ty, t, c) \<and> (\<forall>a\<in>set as. event_at s' a = event_at s a)
            \<and> sorted (map (time_at s') (xs @ brk s # ys)))
       \<and> (as \<noteq> [] \<longrightarrow> (\<exists>s'. Remove_event s = Returns (Some (hd as), s') \<and> timeline s' (tl as)
            \<and> (\<forall>a\<in>set as. event_at s' a = event_at s a)))
       \<and> (\<exists>s1 s2 s3 xs ys. Insert_event tyA t cA s = Returns s1
            \<and> Insert_event tyB t cB s1 = Returns s2 \<and> as = xs @ ys
            \<and> timeline s2 (xs @ brk s # Suc (brk s) # ys)
            \<and> event_at s2 (brk s) = (tyA, t, cA) \<and> event_at s2 (Suc (brk s)) = (tyB, t, cB)
            \<and> Remove_events (length as + 2) s2
                 = Returns (map Some (xs @ brk s # Suc (brk s) # ys), s3))"
proof (intro conjI)
  from assms(3) have fresh: "events s (brk s) = None" "events s (Suc (brk s)) = None"
    by (simp_all add: unused_from_def)
  from Insert_event_sorted [OF assms(1,2) fresh(1), of ty t c]
  show "\<exists>s' xs ys. Insert_event ty t c s = Returns s' \<and> as = xs @ ys
            \<and> timeline s' (xs @ brk s # ys)
            \<and> (\<forall>a\<in>set xs. time_at s a \<le> t) \<and> (\<forall>a\<in>set ys. t < time_at s a)
            \<and> event_at s' (brk s) = (ty, t, c) \<and> (\<forall>a\<in>set as. event_at s' a = event_at s a)
            \<and> sorted (map (time_at s') (xs @ brk s # ys))"
    by blast
  show "as \<noteq> [] \<longrightarrow> (\<exists>s'. Remove_event s = Returns (Some (hd as), s') \<and> timeline s' (tl as)
            \<and> (\<forall>a\<in>set as. event_at s' a = event_at s a))"
  proof
    assume "as \<noteq> []"
    then obtain a as' where as: "as = a # as'" by (cases as) auto
    from Remove_event_timeline [of s a as'] assms(1) as obtain s' where
      s': "Remove_event s = Returns (Some a, s')" "timeline s' as'" by blast
    from Remove_event_frame(4) [OF s'(1)] s' as
    show "\<exists>s'. Remove_event s = Returns (Some (hd as), s') \<and> timeline s' (tl as)
            \<and> (\<forall>a\<in>set as. event_at s' a = event_at s a)"
      by auto
  qed
  from Insert_event_sorted [OF assms(1,2) fresh(1), of tyA t cA] obtain s1 xs ys where
    s1: "Insert_event tyA t cA s = Returns s1" "as = xs @ ys" "timeline s1 (xs @ brk s # ys)"
      "\<forall>a\<in>set xs. time_at s a \<le> t" "\<forall>a\<in>set ys. t < time_at s a"
      "event_at s1 (brk s) = (tyA, t, cA)"
      "\<forall>a\<in>set as. time_at s1 a = time_at s a" "time_at s1 (brk s) = t"
      "sorted (map (time_at s1) (xs @ brk s # ys))"
    by blast
  have b1: "brk s1 = Suc (brk s)" by (rule Insert_event_frame(2) [OF s1(1)])
  have fresh1: "events s1 (brk s1) = None"
    using Insert_event_event_at(5) [OF s1(1), of "Suc (brk s)"] fresh(2) b1 by simp
  from Insert_event_timeline [OF s1(3) fresh1 s1(9), of tyB t cB] obtain s2 where
    s2: "Insert_event tyB t cB s1 = Returns s2"
      "timeline s2 (insert_at (time_at s1) t (brk s1) (xs @ brk s # ys))"
    by blast
  have "insert_at (time_at s1) t (brk s1) ((xs @ [brk s]) @ ys) = (xs @ [brk s]) @ brk s1 # ys"
    using s1(2,4,5,7,8) by (intro insert_at_known) auto
  with s2(2) b1 have tl2: "timeline s2 (xs @ brk s # Suc (brk s) # ys)" by simp
  have a1: "events s1 (brk s) \<noteq> None"
    using Insert_event_event_at(5) [OF s1(1), of "brk s"] by simp
  have evA: "event_at s2 (brk s) = (tyA, t, cA)"
    using Insert_event_event_at(3) [OF s2(1) a1] b1 s1(6) by simp
  have evB: "event_at s2 (Suc (brk s)) = (tyB, t, cB)"
    using Insert_event_event_at(1) [OF s2(1)] b1 by simp
  from Remove_events_timeline [OF tl2] s1(2) obtain s3 where
    "Remove_events (length as + 2) s2 = Returns (map Some (xs @ brk s # Suc (brk s) # ys), s3)"
    by auto
  with s1(1,2) s2(1) tl2 evA evB
  show "\<exists>s1 s2 s3 xs ys. Insert_event tyA t cA s = Returns s1
            \<and> Insert_event tyB t cB s1 = Returns s2 \<and> as = xs @ ys
            \<and> timeline s2 (xs @ brk s # Suc (brk s) # ys)
            \<and> event_at s2 (brk s) = (tyA, t, cA) \<and> event_at s2 (Suc (brk s)) = (tyB, t, cB)
            \<and> Remove_events (length as + 2) s2
                 = Returns (map Some (xs @ brk s # Suc (brk s) # ys), s3)"
    by blast
qed

theorem timeline_order_witness:
  "timeline (Initialize (boot 2147483647 (rand_always 0))) []
   \<and> sorted (map (time_at (Initialize (boot 2147483647 (rand_always 0)))) [])
   \<and> unused_from (events (Initialize (boot 2147483647 (rand_always 0))))
        (brk (Initialize (boot 2147483647 (rand_always 0))))
   \<and> (\<exists>s1 s2 s3.
         Insert_event ARRIVAL 50 None (Initialize (boot 2147483647 (rand_always 0))) = Returns s1
         \<and> Insert_event COMPLETE 50 None s1 = Returns s2
         \<and> timeline s2 [0, 1]
         \<and> event_at s2 0 = (ARRIVAL, 50, None) \<and> event_at s2 1 = (COMPLETE, 50, None)
         \<and> Remove_events 2 s2 = Returns ([Some 0, Some 1], s3))"
proof -
  let ?s = "Initialize (boot 2147483647 (rand_always 0))"
  have h: "timeline ?s []" "sorted (map (time_at ?s) [])" "unused_from (events ?s) (brk ?s)"
    by (simp_all add: timeline_def Initialize_def boot_def unused_from_def)
  have b: "brk ?s = 0" by (simp add: Initialize_def boot_def)
  from timeline_order [OF h, of _ 50 _ ARRIVAL None COMPLETE None] h show ?thesis
    unfolding b by (auto simp: numeral_2_eq_2)
qed

text \<open>
  Claim C7. Of a non-empty event list that is well formed and sorted, when the first
  event is not later than the new time \<open>t\<close> and the last event is: the search loop of
  \<open>Insert_event\<close> (run on the heap that holds the new node) ends with \<open>not_found\<close>
  false at an event of the list that is later than \<open>t\<close>, and \<open>Insert_event\<close> returns
  without printing its error message.
\<close>

theorem Insert_event_scan_finds:
  assumes "timeline s as" and "as \<noteq> []" and "sorted (map (time_at s) as)"
    and "unused_from (events s) (brk s)"
    and "time_at s (hd as) \<le> t" and "t < time_at s (last as)"
  shows "\<exists>b. Insert_event_loop
              ((events s)(brk s \<mapsto> \<lparr>ev_type = ty, ev_time = t, cust_index = c,
                                      forward = None, backward = None\<rparr>))
              t (top_event s) True = Some (Returns (Some b, False))
           \<and> b \<in> set as \<and> t < time_at s b
           \<and> (\<exists>s'. Insert_event ty t c s = Returns s' \<and> stdout s' = stdout s)"
proof -
  let ?h = "(events s)(brk s \<mapsto> \<lparr>ev_type = ty, ev_time = t, cust_index = c,
                                      forward = None, backward = None\<rparr>)"
  let ?P = "\<lambda>y. time_at s y \<le> t"
  from assms(4) have fresh: "events s (brk s) = None" by (simp add: unused_from_def)
  from assms(1) fresh have loc: "brk s \<notin> set as" by (rule timeline_fresh)
  from assms(1) loc have "dlist ?h None (top_event s) as None"
    by (simp add: timeline_def)
  then have "Insert_event_loop ?h t (top_event s) True =
      Some (Returns (case dropWhile (\<lambda>a. ev_time (the (?h a)) \<le> t) as of
                [] \<Rightarrow> (None, True) | b # bs \<Rightarrow> (Some b, False)))"
    by (rule Insert_event_loop_dlist)
  moreover have "dropWhile (\<lambda>a. ev_time (the (?h a)) \<le> t) as = dropWhile ?P as"
    using loc by (intro dropWhile_cong) (auto simp: time_at_def)
  moreover from assms(2,6) have "\<exists>x\<in>set as. \<not> ?P x"
    by (intro bexI [of _ "last as"]) simp_all
  then obtain b bs where drop: "dropWhile ?P as = b # bs"
    by (cases "dropWhile ?P as") (auto simp: dropWhile_eq_Nil_conv)
  ultimately have loop: "Insert_event_loop ?h t (top_event s) True = Some (Returns (Some b, False))"
    by simp
  have ne: "dropWhile ?P as \<noteq> []" unfolding drop by simp
  have "b \<in> set (dropWhile ?P as)" unfolding drop by simp
  then have mem: "b \<in> set as" by (rule set_dropWhileD)
  have later: "t < time_at s b" using hd_dropWhile [OF ne] unfolding drop by simp
  from Insert_event_timeline [OF assms(1) fresh assms(3), of ty t c] loop mem later
  show ?thesis by blast
qed

theorem Insert_event_scan_finds_witness:
  "\<exists>s1 s2. Insert_event EOS 9 None (Initialize (boot 2147483647 (rand_always 0))) = Returns s1
     \<and> Insert_event ARRIVAL 4 None s1 = Returns s2
     \<and> timeline s2 [1, 0] \<and> [1, 0] \<noteq> ([] :: nat list) \<and> sorted (map (time_at s2) [1, 0])
     \<and> unused_from (events s2) (brk s2)
     \<and> time_at s2 (hd [1, 0]) \<le> 6 \<and> 6 < time_at s2 (last [1, 0])
     \<and> Insert_event_loop
              ((events s2)(brk s2 \<mapsto> \<lparr>ev_type = COMPLETE, ev_time = 6, cust_index = None,
                                      forward = None, backward = None\<rparr>))
              6 (top_event s2) True = Some (Returns (Some 0, False))
     \<and> (\<exists>s3. Insert_event COMPLETE 6 None s2 = Returns s3 \<and> stdout s3 = stdout s2)"
proof -
  let ?s = "Initialize (boot 2147483647 (rand_always 0))"
  obtain s1 where s1: "s1 = ?s\<lparr>brk := 1, events := [0 \<mapsto> \<lparr>ev_type = EOS, ev_time = 9,
      cust_index = None, forward = None, backward = None\<rparr>], top_event := Some 0,
      last_event := Some 0\<rparr>" by simp
  have i1: "Insert_event EOS 9 None ?s = Returns s1"
    by (simp add: s1 Insert_event_def Let_def Initialize_def boot_def)
  obtain s2 where s2: "s2 = ?s\<lparr>brk := 2, events := [0 \<mapsto> \<lparr>ev_type = EOS, ev_time = 9,
      cust_index = None, forward = None, backward = Some 1\<rparr>,
      1 \<mapsto> \<lparr>ev_type = ARRIVAL, ev_time = 4, cust_index = None, forward = Some 0,
      backward = None\<rparr>], top_event := Some 1, last_event := Some 0\<rparr>" by simp
  have i2: "Insert_event ARRIVAL 4 None s1 = Returns s2"
    by (simp add: s1 s2 Insert_event_def Let_def Initialize_def boot_def ev_write_def fun_upd_twist)
  have h: "timeline s2 [1, 0]" "[1, 0] \<noteq> ([] :: nat list)" "sorted (map (time_at s2) [1, 0])"
    "unused_from (events s2) (brk s2)" "time_at s2 (hd [1, 0]) \<le> 6"
    "6 < time_at s2 (last [1, 0])"
    by (simp_all add: s2 timeline_def last_ptr_def time_at_def unused_from_def)
  from Insert_event_scan_finds [OF h, of COMPLETE None] obtain b where
    b: "Insert_event_loop
              ((events s2)(brk s2 \<mapsto> \<lparr>ev_type = COMPLETE, ev_time = 6, cust_index = None,
                                      forward = None, backward = None\<rparr>))
              6 (top_event s2) True = Some (Returns (Some b, False))"
      "b \<in> set [1, 0]" "6 < time_at s2 b"
      "\<exists>s'. Insert_event COMPLETE 6 None s2 = Returns s' \<and> stdout s' = stdout s2"
    by blast
  from b(2,3) have "b = 0" by (auto simp: s2 time_at_def)
  with i1 i2 h b show ?thesis by blast
qed

text \<open>
  Claim C10. When neither fast path applies and the search loop ends with \<open>not_found\<close>
  still true, \<open>Insert_event\<close> returns: it has printed its error message, the new node
  is allocated and stays unlinked, and \<open>top_event\<close>, \<open>last_event\<close> and every node that
  was there are as before.
\<close>

theorem Insert_event_failed_scan:
  assumes "events s (brk s) = None"
    and "deref (events s) (top_event s) = Returns first" and "\<not> ev_time first > t"
    and "deref (events s) (last_event s) = Returns final" and "\<not> ev_time final \<le> t"
    and "Insert_event_loop
              ((events s)(brk s \<mapsto> \<lparr>ev_type = ty, ev_time = t, cust_index = c,
                                      forward = None, backward = None\<rparr>))
              t (top_event s) True = Some (Returns (pos, True))"
  shows "Insert_event ty t c s =
           Returns (s\<lparr>brk := Suc (brk s),
                      events := (events s)(brk s \<mapsto> \<lparr>ev_type = ty, ev_time = t, cust_index = c,
                                      forward = None, backward = None\<rparr>),
                      stdout := stdout s @ [Text '' ***Error - problems in insert event routine***'']\<rparr>)"
proof -
  from assms(2) obtain a where a: "top_event s = Some a" "events s a = Some first"
    by (auto simp: deref_Returns)
  from assms(4) obtain l where l: "last_event s = Some l" "events s l = Some final"
    by (auto simp: deref_Returns)
  from a l assms(1) have ne: "a \<noteq> brk s" "l \<noteq> brk s" by auto
  from a l ne assms(3,5,6) show ?thesis
    by (simp add: Insert_event_def Let_def printf_def)
qed

theorem Insert_event_failed_scan_witness:
  "\<exists>s. s = (boot 2147483647 (rand_always 0))\<lparr>brk := 2,
        events := [0 \<mapsto> \<lparr>ev_type = ARRIVAL, ev_time = 1, cust_index = None, forward = None,
                         backward = None\<rparr>,
                   1 \<mapsto> \<lparr>ev_type = EOS, ev_time = 5, cust_index = None, forward = None,
                         backward = None\<rparr>],
        top_event := Some 0, last_event := Some 1\<rparr>
     \<and> events s (brk s) = None
     \<and> deref (events s) (top_event s) = Returns (the (events s 0)) \<and> \<not> ev_time (the (events s 0)) > 3
     \<and> deref (events s) (last_event s) = Returns (the (events s 1)) \<and> \<not> ev_time (the (events s 1)) \<le> 3
     \<and> Insert_event_loop
              ((events s)(brk s \<mapsto> \<lparr>ev_type = COMPLETE, ev_time = 3, cust_index = None,
                                      forward = None, backward = None\<rparr>))
              3 (top_event s) True = Some (Returns (None, True))
     \<and> Insert_event COMPLETE 3 None s =
           Returns (s\<lparr>brk := 3,
                      events := (events s)(2 \<mapsto> \<lparr>ev_type = COMPLETE, ev_time = 3, cust_index = None,
                                      forward = None, backward = None\<rparr>),
                      stdout := [Text '' ***Error - problems in insert event routine***'']\<rparr>)"
proof -
  obtain s where s: "s = (boot 2147483647 (rand_always 0))\<lparr>brk := 2,
        events := [0 \<mapsto> \<lparr>ev_type = ARRIVAL, ev_time = 1, cust_index = None, forward = None,
                         backward = None\<rparr>,
                   1 \<mapsto> \<lparr>ev_type = EOS, ev_time = 5, cust_index = None, forward = None,
                         backward = None\<rparr>],
        top_event := Some 0, last_event := Some 1\<rparr>" by simp
  have h: "events s (brk s) = None"
    "deref (events s) (top_event s) = Returns (the (events s 0))"
    "\<not> ev_time (the (events s 0)) > 3"
    "deref (events s) (last_event s) = Returns (the (events s 1))"
    "\<not> ev_time (the (events s 1)) \<le> 3"
    by (simp_all add: s)
  have loop: "Insert_event_loop
              ((events s)(brk s \<mapsto> \<lparr>ev_type = COMPLETE, ev_time = 3, cust_index = None,
                                      forward = None, backward = None\<rparr>))
              3 (top_event s) True = Some (Returns (None, True))"
    by (subst Insert_event_loop.simps) (simp add: s)
  have b: "brk s = 2" "stdout s = []" by (simp_all add: s boot_def)
  from Insert_event_failed_scan [OF h loop] h loop s show ?thesis
    unfolding b by (intro exI [of _ s]) simp
qed

subsection \<open>Singly linked lists in the heap\<close>

lemma qlist_upd [simp]:
  "a \<notin> set as \<Longrightarrow> qlist (h(a := v)) p as q = qlist h p as q"
  by (induction as arbitrary: p) (auto split: option.splits)

lemma qlist_append:
  "qlist h p (xs @ ys) q \<longleftrightarrow> (\<exists>m. qlist h p xs m \<and> qlist h m ys q)"
  by (induction xs arbitrary: p) (auto split: option.splits)

lemma qlist_dom: "qlist h p as q \<Longrightarrow> set as \<subseteq> dom h"
  by (induction as arbitrary: p) (auto split: option.splits)

lemma waiting_fresh: "waiting s as \<Longrightarrow> queue s b = None \<Longrightarrow> b \<notin> set as"
  using qlist_dom [of "queue s" "q_head s" as None] by (auto simp: waiting_def)

lemma waiting_head_None: "waiting s as \<Longrightarrow> q_head s = None \<longleftrightarrow> as = []"
  by (cases as) (auto simp: waiting_def)

lemma q_write_Returns:
  "q_write p f s = Returns s' \<longleftrightarrow>
     (\<exists>a n. p = Some a \<and> queue s a = Some n \<and> s' = s\<lparr>queue := (queue s)(a \<mapsto> f n)\<rparr>)"
  by (auto simp: q_write_def and_then_Returns deref_Returns)

lemma post_q_write:
  "(\<And>a n. p = Some a \<Longrightarrow> queue s a = Some n \<Longrightarrow> Q (s\<lparr>queue := (queue s)(a \<mapsto> f n)\<rparr>))
   \<Longrightarrow> post (q_write p f s) Q"
  by (auto simp: post_def q_write_Returns)

lemma initialised_Returns: "initialised v = Returns x \<longleftrightarrow> v = Some x"
  by (cases v) (simp_all add: initialised_def)

lemma node_CPU_time_Returns:
  "node_CPU_time s p = Returns b \<longleftrightarrow>
     (\<exists>a n c cu. p = Some a \<and> queue s a = Some n \<and> q_cust_index n = Some c
        \<and> custs s c = Some cu \<and> CPU_time cu = Some b)"
  by (auto simp: node_CPU_time_def and_then_Returns deref_Returns initialised_Returns)

lemma queued_ok_iff:
  "queued_ok s q \<longleftrightarrow>
     (\<exists>n c cu b. queue s q = Some n \<and> q_cust_index n = Some c
        \<and> custs s c = Some cu \<and> CPU_time cu = Some b)"
  by (auto simp: queued_ok_def node_CPU_time_Returns burst_at_def cust_at_def)

lemma queued_ok_cong:
  assumes "queue s' q = queue s q" "custs s' = custs s"
  shows "queued_ok s' q = queued_ok s q" "burst_at s' q = burst_at s q"
    "cust_at s' q = cust_at s q"
  using assms by (simp_all add: queued_ok_iff burst_at_def cust_at_def)

subsection \<open>Puton\_queue\<close>

lemma Puton_queue_loop_qlist:
  assumes "qlist (queue s) (Some x) (x # rest) None"
    and "\<forall>q\<in>set rest. queued_ok s q"
    and "node_CPU_time s newnode = Returns b"
    and "\<exists>q\<in>set rest. b < burst_at s q"
  shows "Puton_queue_loop s newnode (Some x) (q_next (the (queue s x))) =
     Some (and_then (deref (queue s)
             (Some (last (x # takeWhile (\<lambda>q. burst_at s q \<le> b) rest)))) (\<lambda>p.
           and_then (q_write newnode (\<lambda>n. n\<lparr>q_next := q_next p\<rparr>) s) (\<lambda>s'.
           q_write (Some (last (x # takeWhile (\<lambda>q. burst_at s q \<le> b) rest)))
             (\<lambda>n. n\<lparr>q_next := newnode\<rparr>) s')))"
  using assms
proof (induction rest arbitrary: x)
  case Nil
  then show ?case by simp
next
  case (Cons y rest)
  from Cons.prems(1) obtain nx ny where n: "queue s x = Some nx" "q_next nx = Some y"
    "queue s y = Some ny" "qlist (queue s) (Some y) (y # rest) None"
    by (auto split: option.splits)
  from Cons.prems(2) have y: "node_CPU_time s (Some y) = Returns (burst_at s y)"
    by (simp add: queued_ok_def)
  show ?case
  proof (cases "b < burst_at s y")
    case True
    with n y Cons.prems(3) show ?thesis
      by (subst Puton_queue_loop.simps) simp
  next
    case False
    with Cons.prems(4) have ex: "\<exists>q\<in>set rest. b < burst_at s q" by auto
    from Cons.prems(2) have ok: "\<forall>q\<in>set rest. queued_ok s q" by simp
    from Cons.IH [OF n(4) ok Cons.prems(3) ex] False n y Cons.prems(3) show ?thesis
      by (subst Puton_queue_loop.simps) simp
  qed
qed

lemma Puton_queue_waiting:
  assumes w: "waiting s qs" and ok: "\<forall>q\<in>set qs. queued_ok s q"
      and sorted: "sorted (map (burst_at s) qs)" and fresh: "queue s (brk s) = None"
      and c: "custs s c = Some cu" "CPU_time cu = Some b"
  shows "\<exists>s'. Puton_queue (Some c) s = Returns s'
           \<and> waiting s' (insert_at (burst_at s) b (brk s) qs) \<and> stdout s' = stdout s"
proof -
  let ?loc = "brk s"
  let ?new = "\<lparr>q_cust_index = Some c, q_next = None\<rparr>"
  let ?h = "(queue s)(?loc \<mapsto> ?new)"
  let ?s = "s\<lparr>brk := Suc (brk s), queue := ?h\<rparr>"
  from w fresh have loc: "?loc \<notin> set qs" by (rule waiting_fresh)
  from w have ql: "qlist (queue s) (q_head s) qs None" and dist: "distinct qs"
    and last: "q_last s = last_ptr qs" by (simp_all add: waiting_def)
  have new: "node_CPU_time ?s (Some ?loc) = Returns b"
    using c by (simp add: node_CPU_time_Returns)
  have old: "node_CPU_time ?s (Some q) = Returns (burst_at s q)" if "q \<in> set qs" for q
  proof -
    from that loc have "q \<noteq> ?loc" by auto
    then have "node_CPU_time ?s (Some q) = node_CPU_time s (Some q)"
      by (simp add: node_CPU_time_def deref_def)
    with that ok show ?thesis by (simp add: queued_ok_def)
  qed
  show ?thesis
  proof (cases qs)
    case Nil
    with w show ?thesis
      by (simp add: Puton_queue_def Let_def waiting_def insert_at_def)
  next
    case (Cons a as')
    with ql obtain n where n: "q_head s = Some a" "queue s a = Some n"
      "qlist (queue s) (q_next n) as' None"
      by (auto split: option.splits)
    from loc Cons have la: "a \<noteq> ?loc" by auto
    from old [of a] Cons have oa: "node_CPU_time ?s (Some a) = Returns (burst_at s a)" by simp
    obtain xs l where xs: "qs = xs @ [l]"
      using Cons by (metis list.distinct(1) rev_exhaust)
    from last xs have le: "q_last s = Some l" by simp
    from old [of l] xs have ol: "node_CPU_time ?s (Some l) = Returns (burst_at s l)" by simp
    from loc xs have ll: "l \<noteq> ?loc" by auto
    show ?thesis
    proof (cases "b < burst_at s a")
      case True
      then have ins: "insert_at (burst_at s) b ?loc qs = ?loc # qs"
        using Cons by (simp add: insert_at_def)
      from True n la loc dist Cons last new oa le show ?thesis
        unfolding ins
        by (simp add: Puton_queue_def Let_def waiting_def q_write_def last_ptr_def)
    next
      case False
      from ql xs obtain nl where nl: "queue s l = Some nl" "q_next nl = None"
        "qlist (queue s) (q_head s) xs (Some l)"
        by (auto simp: qlist_append split: option.splits)
      show ?thesis
      proof (cases "burst_at s l \<le> b")
        case True
        have ins: "insert_at (burst_at s) b ?loc qs = qs @ [?loc]"
          using sorted xs True by (intro insert_at_back) simp_all
        from dist xs have lx: "l \<notin> set xs" by simp
        from loc xs have locx: "?loc \<notin> set xs" by simp
        from True False n la nl ll le lx locx dist loc xs new oa ol show ?thesis
          unfolding ins
          by (simp add: Puton_queue_def Let_def waiting_def q_write_def qlist_append
              last_ptr_def)
      next
        case nlast: False
        let ?P = "\<lambda>y. burst_at s y \<le> b"
        have bs: "burst_at ?s q = burst_at s q" if "q \<in> set qs" for q
          using that loc by (auto simp: burst_at_def cust_at_def)
        have oks: "queued_ok ?s q" if "q \<in> set qs" for q
          using that old [of q] bs [of q] by (simp add: queued_ok_def)
        have qls: "qlist ?h (Some a) (a # as') None"
          using ql loc n Cons by simp
        from nlast False have "l \<noteq> a" by auto
        moreover from xs Cons have "l \<in> set (a # as')" by simp
        ultimately have "l \<in> set as'" by simp
        with nlast have ex: "\<exists>q\<in>set as'. b < burst_at ?s q"
          using bs [of l] xs by (intro bexI [of _ l]) auto
        from oks Cons have oks': "\<forall>q\<in>set as'. queued_ok ?s q" by simp
        have tw: "takeWhile (\<lambda>q. burst_at ?s q \<le> b) as' = takeWhile ?P as'"
          using bs Cons by (intro takeWhile_cong) auto
        have loop: "Puton_queue_loop ?s (Some ?loc) (Some a) (q_next n) =
          Some (and_then (deref ?h (Some (last (a # takeWhile ?P as')))) (\<lambda>p.
           and_then (q_write (Some ?loc) (\<lambda>n. n\<lparr>q_next := q_next p\<rparr>) ?s) (\<lambda>s'.
           q_write (Some (last (a # takeWhile ?P as'))) (\<lambda>n. n\<lparr>q_next := Some ?loc\<rparr>) s')))"
          using Puton_queue_loop_qlist [of ?s a as' "Some ?loc" b] qls oks' new ex n la
          by (simp add: tw)
        have Pa: "?P a" using False by simp
        have take: "takeWhile ?P qs = a # takeWhile ?P as'" using Pa Cons by simp
        have Pl: "\<not> ?P l" using nlast by simp
        from Pl xs obtain y ys where drop: "dropWhile ?P qs = y # ys"
          by (cases "dropWhile ?P qs") (auto simp: dropWhile_eq_Nil_conv)
        obtain zs x where zx: "a # takeWhile ?P as' = zs @ [x]"
          by (metis list.distinct(1) rev_exhaust)
        have split: "qs = zs @ [x] @ y # ys"
          using takeWhile_dropWhile_id [of ?P qs] by (simp add: take drop zx)
        from ql split obtain nx ny where
          zs: "qlist (queue s) (q_head s) zs (Some x)" and
          nx: "queue s x = Some nx" "q_next nx = Some y" and
          ny: "queue s y = Some ny" and
          ys: "qlist (queue s) (q_next ny) ys None"
          by (auto simp: qlist_append split: option.splits)
        from dist split have d: "x \<noteq> y" "x \<notin> set zs" "y \<notin> set zs" "x \<notin> set ys"
          "y \<notin> set ys" "distinct zs" "distinct ys" "set zs \<inter> set ys = {}" by auto
        from loc split have l: "?loc \<noteq> x" "?loc \<noteq> y" "?loc \<notin> set zs" "?loc \<notin> set ys"
          by auto
        have lastx: "last (a # takeWhile ?P as') = x" unfolding zx by simp
        have loop': "Puton_queue_loop ?s (Some ?loc) (Some a) (q_next n) =
          Some (and_then (deref ?h (Some x)) (\<lambda>p.
           and_then (q_write (Some ?loc) (\<lambda>n. n\<lparr>q_next := q_next p\<rparr>) ?s) (\<lambda>s'.
           q_write (Some x) (\<lambda>n. n\<lparr>q_next := Some ?loc\<rparr>) s')))"
          using loop unfolding lastx .
        have ins: "insert_at (burst_at s) b ?loc qs = zs @ [x, ?loc, y] @ ys"
          by (simp add: insert_at_def take drop zx)
        have lp: "last_ptr (zs @ x # ?loc # y # ys) = Some l"
          using le last by (simp add: split last_ptr_def)
        from nlast False n la nl ll le zs nx ny ys d l new oa ol show ?thesis
          unfolding ins
          by (simp add: Puton_queue_def Let_def loop' waiting_def q_write_def
              qlist_append lp)
      qed
    qed
  qed
qed

lemma q_effect_refl [simp]: "q_effect s s"
  by (simp add: q_effect_def)

lemma Puton_queue_loop_effect:
  assumes "Puton_queue_loop s n p f = Some r"
  shows "post r (q_effect s)"
proof (rule Puton_queue_loop.raw_induct [where P = "\<lambda>s n p f r. post r (q_effect s)", OF _ assms],
    goal_cases)
  case (1 loop s n p f r)
  note IH = "1"(1)
  from "1"(2) show ?case
    by (auto split: res.splits if_splits intro!: post_rules post_q_write dest: IH
        simp: q_effect_def q_frame_def)
qed

lemma Puton_queue_loop_post: "post (finished (Puton_queue_loop s n p f)) (q_effect s)"
  by (cases "Puton_queue_loop s n p f")
    (simp_all add: post_Diverges Puton_queue_loop_effect)

lemma Puton_queue_effect:
  "post (Puton_queue pcust s) (\<lambda>s'. q_effect (s\<lparr>brk := Suc (brk s),
        queue := (queue s)(brk s \<mapsto> \<lparr>q_cust_index = pcust, q_next = None\<rparr>)\<rparr>) s')"
  unfolding Puton_queue_def Let_def
  apply (intro post_rules post_q_write post_any [of _ "node_CPU_time _ _"] Puton_queue_loop_post)
  apply (auto simp: q_effect_def q_frame_def)
  done

lemma q_frame_fields:
  assumes "q_frame s' = q_frame s"
  shows "events s' = events s" "top_event s' = top_event s" "last_event s' = last_event s"
    "custs s' = custs s"
    "accum_resp_time s' = accum_resp_time s" "num_resp_time s' = num_resp_time s"
    "iarrive_time s' = iarrive_time s" "service_time s' = service_time s"
    "sim_length s' = sim_length s" "clock s' = clock s" "busy s' = busy s" "seed s' = seed s"
    "libc_seed s' = libc_seed s" "libc_rand s' = libc_rand s" "rand_pos s' = rand_pos s"
    "RAND_MAX s' = RAND_MAX s"
proof -
  show "events s' = events s" using arg_cong [OF assms, of events] by (simp add: q_frame_def)
  show "top_event s' = top_event s"
    using arg_cong [OF assms, of top_event] by (simp add: q_frame_def)
  show "last_event s' = last_event s"
    using arg_cong [OF assms, of last_event] by (simp add: q_frame_def)
  show "custs s' = custs s" using arg_cong [OF assms, of custs] by (simp add: q_frame_def)
  show "accum_resp_time s' = accum_resp_time s"
    using arg_cong [OF assms, of accum_resp_time] by (simp add: q_frame_def)
  show "num_resp_time s' = num_resp_time s"
    using arg_cong [OF assms, of num_resp_time] by (simp add: q_frame_def)
  show "iarrive_time s' = iarrive_time s"
    using arg_cong [OF assms, of iarrive_time] by (simp add: q_frame_def)
  show "service_time s' = service_time s"
    using arg_cong [OF assms, of service_time] by (simp add: q_frame_def)
  show "sim_length s' = sim_length s"
    using arg_cong [OF assms, of sim_length] by (simp add: q_frame_def)
  show "clock s' = clock s" using arg_cong [OF assms, of clock] by (simp add: q_frame_def)
  show "busy s' = busy s" using arg_cong [OF assms, of busy] by (simp add: q_frame_def)
  show "seed s' = seed s" using arg_cong [OF assms, of seed] by (simp add: q_frame_def)
  show "libc_seed s' = libc_seed s"
    using arg_cong [OF assms, of libc_seed] by (simp add: q_frame_def)
  show "libc_rand s' = libc_rand s"
    using arg_cong [OF assms, of libc_rand] by (simp add: q_frame_def)
  show "rand_pos s' = rand_pos s"
    using arg_cong [OF assms, of rand_pos] by (simp add: q_frame_def)
  show "RAND_MAX s' = RAND_MAX s"
    using arg_cong [OF assms, of RAND_MAX] by (simp add: q_frame_def)
qed

lemma Puton_queue_frame:
  assumes "Puton_queue pcust s = Returns s'"
  shows "q_frame s' = q_frame s" "brk s' = Suc (brk s)"
    "reports (stdout s') = reports (stdout s)"
    "map_option q_cust_index (queue s' a) =
       (if a = brk s then Some pcust else map_option q_cust_index (queue s a))"
  using postD [OF Puton_queue_effect assms]
  by (simp_all add: q_effect_def q_frame_def)

lemma cust_index_kept:
  assumes "map_option q_cust_index (queue s' q) = map_option q_cust_index (queue s q)"
    and "custs s' = custs s"
  shows "queued_ok s' q = queued_ok s q" "burst_at s' q = burst_at s q"
    "cust_at s' q = cust_at s q" "queue s' q = None \<longleftrightarrow> queue s q = None"
  using assms
  by (cases "queue s' q"; cases "queue s q";
      simp add: queued_ok_iff burst_at_def cust_at_def)+

lemma Puton_queue_sorted:
  assumes w: "waiting s qs" and ok: "\<forall>q\<in>set qs. queued_ok s q"
      and sorted: "sorted (map (burst_at s) qs)" and fresh: "queue s (brk s) = None"
      and c: "custs s c = Some cu" "CPU_time cu = Some b"
  shows "\<exists>s' xs ys. Puton_queue (Some c) s = Returns s' \<and> qs = xs @ ys
           \<and> waiting s' (xs @ brk s # ys)
           \<and> (\<forall>q\<in>set xs. burst_at s q \<le> b) \<and> (\<forall>q\<in>set ys. b < burst_at s q)
           \<and> cust_at s' (brk s) = Some c \<and> burst_at s' (brk s) = b
           \<and> (\<forall>q\<in>set qs. cust_at s' q = cust_at s q \<and> burst_at s' q = burst_at s q)
           \<and> (\<forall>q\<in>set (xs @ brk s # ys). queued_ok s' q)
           \<and> sorted (map (burst_at s') (xs @ brk s # ys)) \<and> stdout s' = stdout s"
proof -
  from Puton_queue_waiting [OF w ok sorted fresh c] obtain s' where
    s': "Puton_queue (Some c) s = Returns s'" "waiting s' (insert_at (burst_at s) b (brk s) qs)"
      "stdout s' = stdout s"
    by blast
  from insert_at_split [OF sorted, of b "brk s"] obtain xs ys where
    xy: "qs = xs @ ys" "insert_at (burst_at s) b (brk s) qs = xs @ brk s # ys"
      "\<forall>y\<in>set xs. burst_at s y \<le> b" "\<forall>y\<in>set ys. b < burst_at s y"
    by blast
  note fr = Puton_queue_frame [OF s'(1)]
  have cs: "custs s' = custs s" by (rule q_frame_fields(4) [OF fr(1)])
  have loc: "brk s \<notin> set qs" using w fresh by (rule waiting_fresh)
  have old: "queued_ok s' q = queued_ok s q \<and> burst_at s' q = burst_at s q
      \<and> cust_at s' q = cust_at s q" if "q \<in> set qs" for q
  proof -
    from that loc have "q \<noteq> brk s" by auto
    with fr(4) [of q] cust_index_kept [of s' q s, OF _ cs] show ?thesis by simp
  qed
  from fr(4) [of "brk s"] obtain n where n: "queue s' (brk s) = Some n" "q_cust_index n = Some c"
    by auto
  with c cs have new: "cust_at s' (brk s) = Some c" "burst_at s' (brk s) = b"
    "queued_ok s' (brk s)"
    by (simp_all add: cust_at_def burst_at_def queued_ok_iff)
  have meq: "map (burst_at s') qs = map (burst_at s) qs" using old by simp
  have "sorted (map (burst_at s') qs)" unfolding meq by (rule sorted)
  from sorted_insert_at [OF this new(2)] have "sorted (map (burst_at s') (xs @ brk s # ys))"
    using insert_at_known [of xs "burst_at s'" b ys "brk s"] xy old by simp
  moreover have "\<forall>q\<in>set (xs @ brk s # ys). queued_ok s' q"
    using old ok new(3) xy(1) by auto
  moreover have "\<forall>q\<in>set qs. cust_at s' q = cust_at s q \<and> burst_at s' q = burst_at s q"
    using old by simp
  moreover note s'(1,3) xy(1,3,4) new(1,2)
  moreover have "waiting s' (xs @ brk s # ys)" using s'(2) xy(2) by simp
  ultimately show ?thesis by blast
qed

subsection \<open>Takoff\_queue\<close>

lemma Takoff_queue_waiting:
  assumes "waiting s (a # as)"
  shows "\<exists>s'. Takoff_queue s = Returns (cust_at s a, s') \<and> waiting s' as
           \<and> stdout s' = stdout s \<and> (\<forall>q\<in>set as. queue s' q = queue s q)"
proof -
  from assms obtain n where n: "q_head s = Some a" "queue s a = Some n"
    "qlist (queue s) (q_next n) as None" "a \<notin> set as" "distinct as"
    "q_last s = last_ptr (a # as)"
    by (auto simp: waiting_def split: option.splits)
  show ?thesis
  proof (cases as)
    case Nil
    with n show ?thesis
      by (simp add: Takoff_queue_def Let_def waiting_def cust_at_def)
  next
    case (Cons b bs)
    with n obtain nb where nb: "q_next n = Some b" "queue s b = Some nb"
      "qlist (queue s) (q_next nb) bs None"
      by (auto split: option.splits)
    from n Cons have ab: "a \<noteq> b" "a \<notin> set bs" "b \<notin> set bs" "distinct bs" by auto
    from n Cons have "q_last s \<noteq> q_head s" by (auto simp: last_ptr_def)
    with n nb ab Cons show ?thesis
      by (auto simp: Takoff_queue_def Let_def waiting_def cust_at_def free_def last_ptr_def)
  qed
qed

lemma Takoff_queue_effect:
  "post (Takoff_queue s) (\<lambda>(p, s'). q_frame s' = q_frame s \<and> brk s' = brk s
      \<and> reports (stdout s') = reports (stdout s))"
  unfolding Takoff_queue_def Let_def
  apply (intro post_rules)
  apply (auto simp: q_frame_def printf_def)
  done

lemma Takoff_queue_frame:
  assumes "Takoff_queue s = Returns (p, s')"
  shows "q_frame s' = q_frame s" "brk s' = brk s" "reports (stdout s') = reports (stdout s)"
  using postD [OF Takoff_queue_effect assms] by simp_all

subsection \<open>The driver: starting a service\<close>

lemma timeline_cong:
  assumes "events s' = events s" "top_event s' = top_event s" "last_event s' = last_event s"
  shows "timeline s' = timeline s" "time_at s' = time_at s" "event_at s' = event_at s"
proof -
  show "timeline s' = timeline s" by (rule ext) (simp add: timeline_def assms)
  show "time_at s' = time_at s" by (rule ext) (simp add: time_at_def assms)
  show "event_at s' = event_at s" by (rule ext) (simp add: event_at_def assms)
qed

lemma waiting_cong:
  assumes "queue s' = queue s" "q_head s' = q_head s" "q_last s' = q_last s"
  shows "waiting s' = waiting s" "cust_at s' = cust_at s"
proof -
  show "waiting s' = waiting s" by (rule ext) (simp add: waiting_def assms)
  show "cust_at s' = cust_at s" by (rule ext) (simp add: cust_at_def assms)
qed

lemma burst_cong:
  assumes "queue s' = queue s" "custs s' = custs s"
  shows "burst_at s' = burst_at s" "queued_ok s' = queued_ok s"
proof -
  show "burst_at s' = burst_at s" by (rule ext) (simp add: burst_at_def cust_at_def assms)
  show "queued_ok s' = queued_ok s" by (rule ext) (simp add: queued_ok_iff assms)
qed

lemma q_frame_timeline:
  assumes "q_frame s' = q_frame s"
  shows "timeline s' = timeline s" "time_at s' = time_at s" "event_at s' = event_at s"
  using timeline_cong [OF q_frame_fields(1-3) [OF assms]] by simp_all

lemma ev_frame_waiting:
  assumes "ev_frame s' = ev_frame s"
  shows "waiting s' = waiting s" "cust_at s' = cust_at s" "burst_at s' = burst_at s"
    "queued_ok s' = queued_ok s"
  using waiting_cong [OF ev_frame_fields(2-4) [OF assms]]
    burst_cong [OF ev_frame_fields(2,1) [OF assms]] by simp_all

lemma start_service_serves:
  assumes w: "waiting s (q # qs)" and ok: "queued_ok s q"
    and tl: "timeline s as" and sorted: "sorted (map (time_at s) as)"
    and fresh: "events s (brk s) = None"
    and range: "LONG_MIN \<le> burst_at s q + clock s" "burst_at s q + clock s \<le> LONG_MAX"
  shows "\<exists>s' xs ys. start_service s = Returns s' \<and> busy s' \<and> waiting s' qs
           \<and> (\<forall>p\<in>set qs. queue s' p = queue s p) \<and> custs s' = custs s
           \<and> as = xs @ ys \<and> timeline s' (xs @ brk s # ys)
           \<and> (\<forall>a\<in>set xs. time_at s a \<le> burst_at s q + clock s)
           \<and> (\<forall>a\<in>set ys. burst_at s q + clock s < time_at s a)
           \<and> event_at s' (brk s) = (COMPLETE, burst_at s q + clock s, cust_at s q)
           \<and> (\<forall>a\<in>set as. event_at s' a = event_at s a)
           \<and> sorted (map (time_at s') (xs @ brk s # ys))
           \<and> clock s' = clock s \<and> accum_resp_time s' = accum_resp_time s
           \<and> num_resp_time s' = num_resp_time s \<and> stdout s' = stdout s"
proof -
  from Takoff_queue_waiting [OF w] obtain s1 where
    s1: "Takoff_queue s = Returns (cust_at s q, s1)" "waiting s1 qs" "stdout s1 = stdout s"
      "\<forall>p\<in>set qs. queue s1 p = queue s p"
    by blast
  note f1 = Takoff_queue_frame [OF s1(1)]
  note g1 = q_frame_fields [OF f1(1)]
  let ?s2 = "s1\<lparr>busy := True\<rparr>"
  from ok obtain n c cu where c: "queue s q = Some n" "q_cust_index n = Some c"
    "custs s c = Some cu" "CPU_time cu = Some (burst_at s q)"
    by (auto simp: queued_ok_iff burst_at_def cust_at_def)
  then have ca: "cust_at s q = Some c" by (simp add: cust_at_def)
  have e2: "events ?s2 = events s" "top_event ?s2 = top_event s" "last_event ?s2 = last_event s"
    by (simp_all add: g1)
  note t2 = timeline_cong [OF e2]
  have b2: "brk ?s2 = brk s" by (simp add: f1)
  have tl2: "timeline ?s2 as" using tl by (simp only: t2)
  have so2: "sorted (map (time_at ?s2) as)" using sorted by (simp only: t2)
  have fr2: "events ?s2 (brk ?s2) = None" using fresh by (simp add: g1 f1)
  from Insert_event_sorted [OF tl2 so2 fr2, of COMPLETE "burst_at s q + clock s" "Some c"]
  obtain s' xs ys where
    s': "Insert_event COMPLETE (burst_at s q + clock s) (Some c) ?s2 = Returns s'"
      "as = xs @ ys" "timeline s' (xs @ brk ?s2 # ys)"
      "\<forall>a\<in>set xs. time_at ?s2 a \<le> burst_at s q + clock s"
      "\<forall>a\<in>set ys. burst_at s q + clock s < time_at ?s2 a"
      "event_at s' (brk ?s2) = (COMPLETE, burst_at s q + clock s, Some c)"
      "\<forall>a\<in>set as. event_at s' a = event_at ?s2 a"
      "sorted (map (time_at s') (xs @ brk ?s2 # ys))" "stdout s' = stdout ?s2"
    by blast
  note f' = Insert_event_frame(1) [OF s'(1)]
  note g' = ev_frame_fields [OF f']
  have start: "start_service s = Returns s'"
    using s1(1) c range s'(1)
    by (simp add: start_service_def Gen_departure_def ca g1 initialised_def to_long_def)
  have w': "waiting s' qs"
    using s1(2) by (simp add: waiting_def g')
  have q': "\<forall>p\<in>set qs. queue s' p = queue s p"
    using s1(4) by (simp add: g')
  have rest: "busy s'" "custs s' = custs s" "clock s' = clock s"
    "accum_resp_time s' = accum_resp_time s" "num_resp_time s' = num_resp_time s"
    "stdout s' = stdout s"
    using s'(9) s1(3) by (simp_all add: g' g1)
  from start w' q' rest s'(2-8) show ?thesis
    unfolding t2 b2 ca by blast
qed

text \<open>
  Claim C5. Of a waiting queue that is well formed and sorted by burst, when the new
  customer's burst \<open>b\<close> is not less than the first one's and is less than the last
  one's: the search loop of \<open>Puton_queue\<close> (run on the heap that holds the new node)
  ends, with the new node linked in before a node \<open>y\<close> of the queue whose burst is
  greater than \<open>b\<close>; it never reads past the last node.
\<close>

theorem Puton_queue_scan_terminates:
  assumes "waiting s qs" and "qs \<noteq> []" and "\<forall>q\<in>set qs. queued_ok s q"
    and "sorted (map (burst_at s) qs)" and "unused_from (queue s) (brk s)"
    and "custs s c = Some cu" and "CPU_time cu = Some b"
    and "\<not> b < burst_at s (hd qs)" and "b < burst_at s (last qs)"
  shows "\<exists>s' xs y ys.
           Puton_queue_loop
             (s\<lparr>brk := Suc (brk s),
                queue := (queue s)(brk s \<mapsto> \<lparr>q_cust_index = Some c, q_next = None\<rparr>)\<rparr>)
             (Some (brk s)) (q_head s) (q_next (the (queue s (hd qs)))) = Some (Returns s')
           \<and> Puton_queue (Some c) s = Returns s'
           \<and> qs = xs @ y # ys \<and> xs \<noteq> [] \<and> (\<forall>q\<in>set xs. burst_at s q \<le> b)
           \<and> b < burst_at s y \<and> waiting s' (xs @ brk s # y # ys)"
proof -
  let ?s = "s\<lparr>brk := Suc (brk s),
                queue := (queue s)(brk s \<mapsto> \<lparr>q_cust_index = Some c, q_next = None\<rparr>)\<rparr>"
  from assms(5) have fresh: "queue s (brk s) = None" by (simp add: unused_from_def)
  from assms(1) fresh have loc: "brk s \<notin> set qs" by (rule waiting_fresh)
  from Puton_queue_sorted [OF assms(1,3,4) fresh assms(6,7)] obtain s' xs ys where
    s': "Puton_queue (Some c) s = Returns s'" "qs = xs @ ys" "waiting s' (xs @ brk s # ys)"
      "\<forall>q\<in>set xs. burst_at s q \<le> b" "\<forall>q\<in>set ys. b < burst_at s q"
    by blast
  from assms(2) obtain a as' where Cons: "qs = a # as'" by (cases qs) auto
  from assms(2) obtain zs l where snoc: "qs = zs @ [l]" by (cases qs rule: rev_cases) auto
  from snoc have "last qs = l" by simp
  with s'(4) assms(9) have "l \<notin> set xs" by auto
  with s'(2) snoc obtain y ys' where ys: "ys = y # ys'" by (cases ys) auto
  from Cons have "hd qs = a" by simp
  with s'(5) assms(8) have "a \<notin> set ys" by auto
  with s'(2) Cons have xs: "xs \<noteq> []" by (cases xs) auto
  from assms(1) Cons obtain n where n: "q_head s = Some a" "queue s a = Some n"
    by (auto simp: waiting_def split: option.splits)
  from assms(1) snoc have le: "q_last s = Some l" by (simp add: waiting_def)
  have new: "node_CPU_time ?s (Some (brk s)) = Returns b"
    using assms(6,7) by (simp add: node_CPU_time_Returns)
  have old: "node_CPU_time ?s (Some q) = Returns (burst_at s q)" if "q \<in> set qs" for q
  proof -
    from that loc have "q \<noteq> brk s" by auto
    then have "node_CPU_time ?s (Some q) = node_CPU_time s (Some q)"
      by (simp add: node_CPU_time_def deref_def)
    with that assms(3) show ?thesis by (simp add: queued_ok_def)
  qed
  from loc Cons have la: "a \<noteq> brk s" by auto
  have hq: "hd qs = a" using Cons by simp
  have lq: "last qs = l" using snoc by simp
  have oa: "node_CPU_time ?s (Some a) = Returns (burst_at s a)" using old [of a] Cons by simp
  have ol: "node_CPU_time ?s (Some l) = Returns (burst_at s l)" using old [of l] snoc by simp
  have ba: "\<not> b < burst_at s a" "\<not> burst_at s l \<le> b" using assms(8,9) hq lq by simp_all
  have "Puton_queue (Some c) s =
      finished (Puton_queue_loop ?s (Some (brk s)) (q_head s) (q_next (the (queue s (hd qs)))))"
    using n le new oa ol ba la
    by (simp add: Puton_queue_def Let_def hq)
  with s'(1) have loop: "Puton_queue_loop ?s (Some (brk s)) (q_head s)
      (q_next (the (queue s (hd qs)))) = Some (Returns s')"
    by (cases "Puton_queue_loop ?s (Some (brk s)) (q_head s) (q_next (the (queue s (hd qs))))")
      simp_all
  from s'(5) ys have "b < burst_at s y" by simp
  with loop s'(1-4) ys xs show ?thesis
    by (intro exI [of _ s'] exI [of _ xs] exI [of _ y] exI [of _ ys']) simp
qed

theorem Puton_queue_scan_terminates_witness:
  "waiting queue_example [3, 4] \<and> [3, 4] \<noteq> ([] :: nat list)
   \<and> queued_ok queue_example 3 \<and> queued_ok queue_example 4
   \<and> sorted (map (burst_at queue_example) [3, 4])
   \<and> unused_from (queue queue_example) (brk queue_example)
   \<and> custs queue_example 2 = Some \<lparr>arrive_time = Some 0, CPU_time = Some 5\<rparr>
   \<and> \<not> 5 < burst_at queue_example (hd [3, 4]) \<and> 5 < burst_at queue_example (last [3, 4])
   \<and> (\<exists>s'. Puton_queue_loop
             (queue_example\<lparr>brk := 6,
                queue := (queue queue_example)(5 \<mapsto> \<lparr>q_cust_index = Some 2, q_next = None\<rparr>)\<rparr>)
             (Some 5) (Some 3) (Some 4) = Some (Returns s')
           \<and> Puton_queue (Some 2) queue_example = Returns s' \<and> waiting s' [3, 5, 4])"
proof -
  let ?s = queue_example
  have b: "burst_at ?s 3 = 2" "burst_at ?s 4 = 10" "brk ?s = 5" "q_head ?s = Some 3"
    "q_next (the (queue ?s 3)) = Some 4"
    by (simp_all add: queue_example_def burst_at_def cust_at_def)
  have h: "waiting ?s [3, 4]" "[3, 4] \<noteq> ([] :: nat list)" "\<forall>q\<in>set [3, 4]. queued_ok ?s q"
    "sorted (map (burst_at ?s) [3, 4])" "unused_from (queue ?s) (brk ?s)"
    "custs ?s 2 = Some \<lparr>arrive_time = Some 0, CPU_time = Some 5\<rparr>"
    "CPU_time \<lparr>arrive_time = Some 0, CPU_time = Some 5\<rparr> = Some 5"
    "\<not> 5 < burst_at ?s (hd [3, 4])" "5 < burst_at ?s (last [3, 4])"
    by (simp_all add: b)
      (simp_all add: queue_example_def waiting_def last_ptr_def queued_ok_iff unused_from_def)
  from Puton_queue_scan_terminates [OF h] obtain s' xs y ys where
    r: "Puton_queue_loop
             (?s\<lparr>brk := Suc (brk ?s),
                queue := (queue ?s)(brk ?s \<mapsto> \<lparr>q_cust_index = Some 2, q_next = None\<rparr>)\<rparr>)
             (Some (brk ?s)) (q_head ?s) (q_next (the (queue ?s (hd [3, 4])))) = Some (Returns s')"
      "Puton_queue (Some 2) ?s = Returns s'"
      "[3, 4] = xs @ y # ys" "xs \<noteq> []" "\<forall>q\<in>set xs. burst_at ?s q \<le> 5"
      "waiting s' (xs @ brk ?s # y # ys)"
    by blast
  from r(3,4,5) have xy: "xs = [3]" "y = 4" "ys = []"
    by (cases xs; cases "tl xs"; auto simp: b Cons_eq_append_conv)+
  have r1: "Puton_queue_loop
             (?s\<lparr>brk := 6,
                queue := (queue ?s)(5 \<mapsto> \<lparr>q_cust_index = Some 2, q_next = None\<rparr>)\<rparr>)
             (Some 5) (Some 3) (Some 4) = Some (Returns s')"
    using r(1) by (simp add: b)
  have r3: "waiting s' [3, 5, 4]" using r(6) by (simp add: xy b)
  from h(3) have ok: "queued_ok ?s 3" "queued_ok ?s 4" by simp_all
  show ?thesis
    by (intro conjI exI [of _ s']) (rule h ok r1 r(2) r3)+
qed

text \<open>
  Claim C1. Of a waiting queue that is well formed and sorted by burst, with every
  customer in it readable, in a state where \<open>malloc\<close> returns unused memory:
  \<^item> \<open>Puton_queue\<close> puts the new node (at the address \<open>brk s\<close>) after every customer
    of a burst up to the new burst \<open>b\<close>, equal bursts included, and before every
    greater one, and leaves the queue well formed and sorted;
  \<^item> \<open>Takoff_queue\<close> returns the customer of the first node and leaves the rest;
  \<^item> hence, when two customers of bursts 10 and 2 wait and the server is idle,
    \<open>start_service\<close> takes the customer of burst 2, sets the server busy and schedules
    that customer's departure at \<open>clock + 2\<close>; the customer of burst 10 stays in the
    queue.
\<close>

theorem ready_queue_order:
  assumes "waiting s qs" and "\<forall>q\<in>set qs. queued_ok s q"
    and "sorted (map (burst_at s) qs)" and "unused_from (queue s) (brk s)"
  shows "(custs s c = Some cu \<and> CPU_time cu = Some b \<longrightarrow>
          (\<exists>s' xs ys. Puton_queue (Some c) s = Returns s' \<and> qs = xs @ ys
            \<and> waiting s' (xs @ brk s # ys)
            \<and> (\<forall>q\<in>set xs. burst_at s q \<le> b) \<and> (\<forall>q\<in>set ys. b < burst_at s q)
            \<and> cust_at s' (brk s) = Some c \<and> burst_at s' (brk s) = b
            \<and> (\<forall>q\<in>set qs. cust_at s' q = cust_at s q \<and> burst_at s' q = burst_at s q)
            \<and> sorted (map (burst_at s') (xs @ brk s # ys))))
       \<and> (qs \<noteq> [] \<longrightarrow>
          (\<exists>s'. Takoff_queue s = Returns (cust_at s (hd qs), s') \<and> waiting s' (tl qs)))
       \<and> (length qs = 2 \<and> set (map (burst_at s) qs) = {2, 10} \<and> \<not> busy s
          \<and> timeline s as \<and> sorted (map (time_at s) as) \<and> unused_from (events s) (brk s)
          \<and> LONG_MIN \<le> 2 + clock s \<and> 2 + clock s \<le> LONG_MAX \<longrightarrow>
          (\<exists>s'. start_service s = Returns s' \<and> busy s'
            \<and> burst_at s (hd qs) = 2 \<and> burst_at s (last qs) = 10
            \<and> waiting s' [last qs] \<and> timeline s' (insert_at (time_at s) (2 + clock s) (brk s) as)
            \<and> event_at s' (brk s) = (COMPLETE, 2 + clock s, cust_at s (hd qs))))"
proof (intro conjI impI)
  from assms(4) have fresh: "queue s (brk s) = None" by (simp add: unused_from_def)
  {
    assume "custs s c = Some cu \<and> CPU_time cu = Some b"
    then have c: "custs s c = Some cu" "CPU_time cu = Some b" by simp_all
    from Puton_queue_sorted [OF assms(1-3) fresh c]
    show "\<exists>s' xs ys. Puton_queue (Some c) s = Returns s' \<and> qs = xs @ ys
            \<and> waiting s' (xs @ brk s # ys)
            \<and> (\<forall>q\<in>set xs. burst_at s q \<le> b) \<and> (\<forall>q\<in>set ys. b < burst_at s q)
            \<and> cust_at s' (brk s) = Some c \<and> burst_at s' (brk s) = b
            \<and> (\<forall>q\<in>set qs. cust_at s' q = cust_at s q \<and> burst_at s' q = burst_at s q)
            \<and> sorted (map (burst_at s') (xs @ brk s # ys))"
      by blast
  }
  {
    assume "qs \<noteq> []"
    then obtain q qs' where "qs = q # qs'" by (cases qs) auto
    with Takoff_queue_waiting [of s q qs'] assms(1)
    show "\<exists>s'. Takoff_queue s = Returns (cust_at s (hd qs), s') \<and> waiting s' (tl qs)"
      by auto
  }
  {
    assume h: "length qs = 2 \<and> set (map (burst_at s) qs) = {2, 10} \<and> \<not> busy s
          \<and> timeline s as \<and> sorted (map (time_at s) as) \<and> unused_from (events s) (brk s)
          \<and> LONG_MIN \<le> 2 + clock s \<and> 2 + clock s \<le> LONG_MAX"
    then obtain q1 q2 where qs: "qs = [q1, q2]"
      by (cases qs; cases "tl qs") auto
    from h qs have set: "{burst_at s q1, burst_at s q2} = {2, 10}" by simp
    from assms(3) qs have "burst_at s q1 \<le> burst_at s q2" by simp
    with set have b: "burst_at s q1 = 2" "burst_at s q2 = 10"
      by (auto simp: doubleton_eq_iff)
    from h have tl: "timeline s as" "sorted (map (time_at s) as)" "events s (brk s) = None"
      and range: "LONG_MIN \<le> burst_at s q1 + clock s" "burst_at s q1 + clock s \<le> LONG_MAX"
      by (simp_all add: b unused_from_def)
    from assms(1,2) qs have w: "waiting s (q1 # [q2])" "queued_ok s q1" by simp_all
    from start_service_serves [OF w tl range] obtain s' xs ys where
      s': "start_service s = Returns s'" "busy s'" "waiting s' [q2]"
        "as = xs @ ys" "timeline s' (xs @ brk s # ys)"
        "\<forall>a\<in>set xs. time_at s a \<le> burst_at s q1 + clock s"
        "\<forall>a\<in>set ys. burst_at s q1 + clock s < time_at s a"
        "event_at s' (brk s) = (COMPLETE, burst_at s q1 + clock s, cust_at s q1)"
      by blast
    have "insert_at (time_at s) (2 + clock s) (brk s) as = xs @ brk s # ys"
      unfolding s'(4) using s'(6,7) by (intro insert_at_known) (simp_all add: b)
    with s' b qs
    show "\<exists>s'. start_service s = Returns s' \<and> busy s'
            \<and> burst_at s (hd qs) = 2 \<and> burst_at s (last qs) = 10
            \<and> waiting s' [last qs] \<and> timeline s' (insert_at (time_at s) (2 + clock s) (brk s) as)
            \<and> event_at s' (brk s) = (COMPLETE, 2 + clock s, cust_at s (hd qs))"
      by (intro exI [of _ s']) simp
  }
qed

theorem ready_queue_order_witness:
  "waiting queue_example [3, 4] \<and> queued_ok queue_example 3 \<and> queued_ok queue_example 4
   \<and> sorted (map (burst_at queue_example) [3, 4])
   \<and> unused_from (queue queue_example) (brk queue_example)
   \<and> length [3 :: nat, 4] = 2 \<and> set (map (burst_at queue_example) [3, 4]) = {2, 10}
   \<and> \<not> busy queue_example \<and> timeline queue_example [] 
   \<and> unused_from (events queue_example) (brk queue_example)
   \<and> LONG_MIN \<le> 2 + clock queue_example \<and> 2 + clock queue_example \<le> LONG_MAX
   \<and> cust_at queue_example 3 = Some 0 \<and> burst_at queue_example 3 = 2
   \<and> (\<exists>s'. start_service queue_example = Returns s' \<and> busy s' \<and> waiting s' [4]
         \<and> timeline s' [5] \<and> event_at s' 5 = (COMPLETE, 2, Some 0))"
proof -
  let ?s = queue_example
  have b: "burst_at ?s 3 = 2" "burst_at ?s 4 = 10" "brk ?s = 5" "cust_at ?s 3 = Some 0"
    "clock ?s = 0"
    by (simp_all add: queue_example_def burst_at_def cust_at_def boot_def)
  have h: "waiting ?s [3, 4]" "\<forall>q\<in>set [3, 4]. queued_ok ?s q"
    "sorted (map (burst_at ?s) [3, 4])" "unused_from (queue ?s) (brk ?s)"
    by (simp_all add: b)
      (simp_all add: queue_example_def waiting_def last_ptr_def queued_ok_iff unused_from_def)
  have g: "length [3 :: nat, 4] = 2" "set (map (burst_at ?s) [3, 4]) = {2, 10}" "\<not> busy ?s"
    "timeline ?s []" "sorted (map (time_at ?s) [])" "unused_from (events ?s) (brk ?s)"
    "LONG_MIN \<le> 2 + clock ?s" "2 + clock ?s \<le> LONG_MAX"
    by (simp_all add: b LONG_MIN_def LONG_MAX_def)
      (simp_all add: queue_example_def boot_def timeline_def unused_from_def)
  from ready_queue_order [OF h, of _ _ _ "[]"] g obtain s' where
    s': "start_service ?s = Returns s'" "busy s'" "waiting s' [last [3, 4]]"
      "timeline s' (insert_at (time_at ?s) (2 + clock ?s) (brk ?s) [])"
      "event_at s' (brk ?s) = (COMPLETE, 2 + clock ?s, cust_at ?s (hd [3, 4]))"
    by blast
  from s'(3,4,5) have r: "waiting s' [4]" "timeline s' [5]" "event_at s' 5 = (COMPLETE, 2, Some 0)"
    by (simp_all add: b insert_at_def)
  from h(2) have ok: "queued_ok ?s 3" "queued_ok ?s 4" by simp_all
  show ?thesis
    by (intro conjI exI [of _ s']) (rule h ok g b s'(1,2) r)+
qed

subsection \<open>The driver: a departure\<close>

lemma free_Some: "h a = Some x \<Longrightarrow> free h (Some a) = Returns (h(a := None))"
  by (simp add: free_def)

lemma sorted_hd_least:
  assumes "sorted (map key (x # xs))" "y \<in> set (x # xs)"
  shows "key x \<le> key y"
  using assms by auto

text \<open>
  \<open>depart\<close> is called with the departure event \<open>e\<close> of a customer \<open>c\<close> whose arrival
  time \<open>a\<close> is set and who is not in the waiting queue; the queue and the event list
  are well formed and sorted. Then \<open>depart\<close> returns, and in the state it leaves:
  \<open>clock - a\<close> is added to \<open>accum_resp_time\<close> and 1 to \<open>num_resp_time\<close>, as floats, and
  the record of \<open>c\<close> is freed. If the queue was empty the server is idle and nothing else
  changed. If not, the server is busy, the first customer of the queue (whose burst is
  the least) is taken off it, and a \<open>COMPLETE\<close> event for that customer, at \<open>clock\<close> plus
  its burst, is in the event list at its place.
\<close>

lemma depart_serves_next:
  assumes "events s e = Some ev" and "cust_index ev = Some c"
    and "custs s c = Some cu" and "arrive_time cu = Some a"
    and "LONG_MIN \<le> clock s - a" and "clock s - a \<le> LONG_MAX"
    and "waiting s qs" and "\<forall>q\<in>set qs. queued_ok s q \<and> cust_at s q \<noteq> Some c"
    and "sorted (map (burst_at s) qs)"
    and "timeline s as" and "sorted (map (time_at s) as)" and "unused_from (events s) (brk s)"
    and "\<forall>q\<in>set qs. LONG_MIN \<le> burst_at s q + clock s \<and> burst_at s q + clock s \<le> LONG_MAX"
  shows "\<exists>s'. depart (Some e) s = Returns s'
           \<and> accum_resp_time s' = float32_add (accum_resp_time s) (float_of_int (clock s - a))
           \<and> num_resp_time s' = float32_add (num_resp_time s) 1
           \<and> custs s' = (custs s)(c := None) \<and> clock s' = clock s
           \<and> (qs = [] \<longrightarrow> \<not> busy s' \<and> waiting s' [] \<and> timeline s' as \<and> events s' = events s)
           \<and> (qs \<noteq> [] \<longrightarrow> busy s' \<and> waiting s' (tl qs)
                \<and> (\<forall>q\<in>set qs. burst_at s (hd qs) \<le> burst_at s q)
                \<and> timeline s' (insert_at (time_at s) (burst_at s (hd qs) + clock s) (brk s) as)
                \<and> event_at s' (brk s) = (COMPLETE, burst_at s (hd qs) + clock s, cust_at s (hd qs))
                \<and> (\<forall>b\<in>set as. event_at s' b = event_at s b))"
proof -
  define s2 where "s2 = s\<lparr>busy := False,
      accum_resp_time := float32_add (accum_resp_time s) (float_of_int (clock s - a)),
      num_resp_time := float32_add (num_resp_time s) 1, custs := (custs s)(c := None)\<rparr>"
  have f2: "events s2 = events s" "top_event s2 = top_event s" "last_event s2 = last_event s"
    "queue s2 = queue s" "q_head s2 = q_head s" "q_last s2 = q_last s" "brk s2 = brk s"
    "clock s2 = clock s" "custs s2 = (custs s)(c := None)" "\<not> busy s2"
    "accum_resp_time s2 = float32_add (accum_resp_time s) (float_of_int (clock s - a))"
    "num_resp_time s2 = float32_add (num_resp_time s) 1"
    by (simp_all add: s2_def)
  have dep: "depart (Some e) s = (if q_head s \<noteq> None then start_service s2 else Returns s2)"
    using assms(1-6)
    by (simp add: depart_def Let_def initialised_def to_long_def free_Some s2_def)
  note t2 = timeline_cong [OF f2(1-3)]
  note w2 = waiting_cong [OF f2(4-6)]
  show ?thesis
  proof (cases qs)
    case Nil
    with assms(7) have "q_head s = None" by (simp add: waiting_def)
    with dep have "depart (Some e) s = Returns s2" by simp
    moreover have "waiting s2 []" "timeline s2 as"
      using assms(7,10) Nil by (simp_all add: t2 w2)
    ultimately show ?thesis using Nil f2
      by (intro exI [of _ s2]) simp
  next
    case (Cons q qs')
    with assms(7) have hd: "q_head s \<noteq> None" by (auto simp: waiting_def)
    from assms(8) Cons obtain n c' cu' b where q: "queue s q = Some n" "q_cust_index n = Some c'"
      "custs s c' = Some cu'" "CPU_time cu' = Some b" "c' \<noteq> c"
      by (auto simp: queued_ok_iff cust_at_def)
    then have ok2: "queued_ok s2 q" and b2: "burst_at s2 q = burst_at s q"
      by (simp_all add: queued_ok_iff burst_at_def cust_at_def f2)
    from assms(7) Cons have w2': "waiting s2 (q # qs')" by (simp add: w2)
    have tl2: "timeline s2 as" using assms(10) by (simp add: t2)
    have so2: "sorted (map (time_at s2) as)" using assms(11) by (simp only: t2)
    have fr2: "events s2 (brk s2) = None" using assms(12) by (simp add: unused_from_def f2)
    have range: "LONG_MIN \<le> burst_at s2 q + clock s2" "burst_at s2 q + clock s2 \<le> LONG_MAX"
      using assms(13) Cons by (simp_all add: b2 f2)
    from start_service_serves [OF w2' ok2 tl2 so2 fr2 range] obtain s' xs ys where
      s': "start_service s2 = Returns s'" "busy s'" "waiting s' qs'" "custs s' = custs s2"
        "as = xs @ ys" "timeline s' (xs @ brk s2 # ys)"
        "\<forall>a\<in>set xs. time_at s2 a \<le> burst_at s2 q + clock s2"
        "\<forall>a\<in>set ys. burst_at s2 q + clock s2 < time_at s2 a"
        "event_at s' (brk s2) = (COMPLETE, burst_at s2 q + clock s2, cust_at s2 q)"
        "\<forall>a\<in>set as. event_at s' a = event_at s2 a"
        "clock s' = clock s2" "accum_resp_time s' = accum_resp_time s2"
        "num_resp_time s' = num_resp_time s2"
      by blast
    have ins: "insert_at (time_at s) (burst_at s q + clock s) (brk s) as = xs @ brk s # ys"
      unfolding s'(5) using s'(7,8) by (intro insert_at_known) (simp_all add: b2 t2 f2)
    have least: "\<forall>p\<in>set qs. burst_at s (hd qs) \<le> burst_at s p"
      using sorted_hd_least [of "burst_at s" q qs'] assms(9) Cons by simp
    from s'(6,9,10) have ev: "timeline s' (xs @ brk s # ys)"
      "event_at s' (brk s) = (COMPLETE, burst_at s q + clock s, cust_at s q)"
      "\<forall>b\<in>set as. event_at s' b = event_at s b"
      by (simp_all add: b2 w2 t2 f2)
    from s'(4,11,12,13) have st: "custs s' = (custs s)(c := None)" "clock s' = clock s"
      "accum_resp_time s' = float32_add (accum_resp_time s) (float_of_int (clock s - a))"
      "num_resp_time s' = float32_add (num_resp_time s) 1"
      by (simp_all add: f2)
    from dep hd s'(1) have "depart (Some e) s = Returns s'" by simp
    with st s'(2,3) least ev ins Cons show ?thesis
      by (intro exI [of _ s']) simp
  qed
qed

text \<open>
  Claim C6: the count of completed customers and the sum of their response times are
  of type \<open>float\<close>, which has 24 binary digits. At the departure that follows the
  16777216th (\<open>2^24\<close>), of a customer whose response time is 1, \<open>depart\<close> does all the
  rest (the server is idle, the record is freed, the waiting customer is served and
  its departure scheduled at \<open>clock\<close> plus its burst), but \<open>num_resp_time++\<close> and
  \<open>accum_resp_time += temp\<close> are rounded back to \<open>2^24\<close>: the count is not incremented
  and the response time is not added.
\<close>

theorem depart_count_saturates:
  "depart (Some 0) long_run_example = Returns long_run_departed
   \<and> custs long_run_example 1 = Some \<lparr>arrive_time = Some 19999999, CPU_time = Some 1\<rparr>
   \<and> clock long_run_example - 19999999 = 1
   \<and> num_resp_time long_run_example = 16777216
   \<and> num_resp_time long_run_departed = 16777216
   \<and> accum_resp_time long_run_example = 16777216
   \<and> accum_resp_time long_run_departed = 16777216
   \<and> custs long_run_departed 1 = None \<and> busy long_run_departed
   \<and> timeline long_run_example [6, 4] \<and> timeline long_run_departed [6, 8, 4]
   \<and> event_at long_run_departed 8 = (COMPLETE, 20000006, Some 2)"
proof -
  have f: "float_of_int 1 = 1" using float_of_int_small [of 1] by simp
  have d: "depart (Some 0) long_run_example = Returns long_run_departed"
    by (simp add: depart_def long_run_example_def long_run_departed_def Let_def deref_def
        initialised_def to_long_def LONG_MIN_def LONG_MAX_def f float32_add_saturated free_def
        start_service_def Takoff_queue_def Gen_departure_def Insert_event_def ev_write_def
        Insert_event_loop.simps boot_def COMPLETE_def EOS_def ARRIVAL_def fun_upd_twist)
  have r: "custs long_run_example 1 = Some \<lparr>arrive_time = Some 19999999, CPU_time = Some 1\<rparr>"
    "clock long_run_example - 19999999 = 1"
    "num_resp_time long_run_example = 16777216" "num_resp_time long_run_departed = 16777216"
    "accum_resp_time long_run_example = 16777216" "accum_resp_time long_run_departed = 16777216"
    "custs long_run_departed 1 = None" "busy long_run_departed"
    "timeline long_run_example [6, 4]" "timeline long_run_departed [6, 8, 4]"
    "event_at long_run_departed 8 = (COMPLETE, 20000006, Some 2)"
    by (simp_all add: long_run_example_def long_run_departed_def timeline_def last_ptr_def
        event_at_def payload_def)
  show ?thesis
    by (intro conjI) (rule d r)+
qed

subsection \<open>The clock\<close>

lemma expon_at_RAND_MAX:
  assumes "RAND_MAX s = 2147483647" "libc_rand s (libc_seed s) (rand_pos s) = 2147483647"
  shows "expon time s = Returns (LONG_MIN, s\<lparr>rand_pos := Suc (rand_pos s)\<rparr>)"
  using draw_at_RAND_MAX [of s time] assms by (simp add: rand_def)

lemma expon_at_zero:
  assumes "RAND_MAX s = 2147483647" "libc_rand s (libc_seed s) (rand_pos s) = 0"
  shows "expon 1 s = Returns (0, s\<lparr>rand_pos := Suc (rand_pos s)\<rparr>)"
proof -
  from assms have "next_draw s = Finite 0"
    by (simp add: next_draw_def rand_def uniform_values)
  moreover have "variate (libm_log s) 1 (Finite 0) = Finite 0"
    by (rule variate_at_zero [of _ 100]) (simp add: float_values)
  ultimately show ?thesis
    by (simp add: expon_next_draw long_of_double_values rand_def)
qed

lemmas run_defs = main_body_def Remove_event_def Let_def ev_write_def free_def
  Read_parms_def Initialize_def boot_def printf_def srand_def EOS_def ARRIVAL_def
  COMPLETE_def Process_statistics_def arrive_def Gen_arrival_def rand_first_def
  to_long_def LONG_MIN_def LONG_MAX_def Insert_event_def cust_write_def
  Puton_queue_def start_service_def Takoff_queue_def Gen_departure_def initialised_def
  deref_def Insert_event_loop.simps

text \<open>
  Claim C8: with means 1 and 1, simulation length 5 and the usual \<open>RAND_MAX = 2^31 - 1\<close>,
  the first \<open>rand()\<close> returns \<open>RAND_MAX\<close> and every other 0. \<open>main\<close> reaches its loop with
  the clock at 0 and the first arrival scheduled at the least \<open>long int\<close> (the variate
  \<open>expon\<close> returns for the draw 1, claim C4); the first round of the loop removes that
  event, sets the clock to its time, and returns: the clock has gone backwards.
\<close>

theorem clock_goes_backwards:
  "main_init 1 1 5 0 (boot 2147483647 (rand_first 2147483647 0)) = Returns backwards_start
   \<and> clock backwards_start = 0
   \<and> top_event backwards_start = Some 2 \<and> time_at backwards_start 2 = LONG_MIN
   \<and> main_body backwards_start = Returns (backwards_round, True)
   \<and> clock backwards_round = LONG_MIN
   \<and> clock backwards_round < clock backwards_start"
proof -
  have i: "main_init 1 1 5 0 (boot 2147483647 (rand_first 2147483647 0)) = Returns backwards_start"
    by (simp add: main_init_def run_defs expon_at_RAND_MAX backwards_start_def fun_upd_twist
        numeral_2_eq_2 numeral_3_eq_3)
  have b: "main_body backwards_start = Returns (backwards_round, True)"
    by (simp add: run_defs expon_at_zero backwards_start_def backwards_round_def fun_upd_twist)
  have c: "clock backwards_start = 0" "top_event backwards_start = Some 2"
    "time_at backwards_start 2 = LONG_MIN" "clock backwards_round = LONG_MIN"
    "clock backwards_round < clock backwards_start"
    by (simp_all add: backwards_start_def backwards_round_def Read_parms_def Initialize_def
        boot_def printf_def srand_def Let_def time_at_def LONG_MIN_def)
  show ?thesis
    by (intro conjI) (rule i b c)+
qed

subsection \<open>What is printed\<close>















end
